theory Spec2Isabelle
  imports Main "HOL-Library.Word" "HOL-Library.Multiset" "HOL-Library.List_Lexorder"
begin

section \<open>JavaScript strings\<close>

text \<open>
  A JavaScript string is a sequence of UTF-16 code units, and \<open>length\<close>, \<open>split\<close>,
  \<open>trim\<close> and \<open>padEnd\<close> all work on code units. A code unit is a 16-bit word.
\<close>

type_synonym jschar = "16 word"
type_synonym jsstring = "jschar list"
type_synonym grid = "jsstring list list"

definition js :: "string \<Rightarrow> jsstring" where
  "js s = map of_char s"

definition pipe :: jschar where "pipe = 0x7C"
definition newline :: jschar where "newline = 0x0A"
definition space :: jschar where "space = 0x20"
definition hyphen :: jschar where "hyphen = 0x2D"
definition colon :: jschar where "colon = 0x3A"

text \<open>
  The code units that \<open>String.prototype.trim\<close> strips and that the regular
  expression class \<open>\s\<close> matches: ECMAScript's WhiteSpace and LineTerminator.
\<close>

definition isWhiteSpace :: "jschar \<Rightarrow> bool" where
  "isWhiteSpace c =
     (c \<in> {0x09, 0x0A, 0x0B, 0x0C, 0x0D, 0x20, 0xA0, 0x1680,
            0x2028, 0x2029, 0x202F, 0x205F, 0x3000, 0xFEFF}
      \<or> (0x2000 \<le> c \<and> c \<le> 0x200A))"

definition js_trim :: "jsstring \<Rightarrow> jsstring" where
  "js_trim s = rev (dropWhile isWhiteSpace (rev (dropWhile isWhiteSpace s)))"

text \<open>\<open>s.split(sep)\<close> for a separator of one code unit; \<open>"".split(sep)\<close> is \<open>[""]\<close>.\<close>

fun js_split :: "jschar \<Rightarrow> jsstring \<Rightarrow> jsstring list" where
  "js_split sep [] = [[]]"
| "js_split sep (c # cs) =
     (if c = sep then [] # js_split sep cs
      else (case js_split sep cs of
              [] \<Rightarrow> [[c]]
            | x # xs \<Rightarrow> (c # x) # xs))"

text \<open>\<open>xs.join(sep)\<close>.\<close>

fun js_join :: "jsstring \<Rightarrow> jsstring list \<Rightarrow> jsstring" where
  "js_join sep [] = []"
| "js_join sep [x] = x"
| "js_join sep (x # y # ys) = x @ sep @ js_join sep (y # ys)"

text \<open>\<open>s.padEnd(n)\<close> pads with spaces; \<open>"-".repeat(n)\<close>.\<close>

definition padEnd :: "jsstring \<Rightarrow> nat \<Rightarrow> jsstring" where
  "padEnd s n = s @ replicate (n - length s) space"

definition js_repeat :: "jschar \<Rightarrow> nat \<Rightarrow> jsstring" where
  "js_repeat c n = replicate n c"

datatype error = TypeError | IllegalLine


section \<open>Table span locator\<close>

definition isTableRow :: "jsstring \<Rightarrow> bool" where
  "isTableRow line =
     (let trimmed = js_trim line in pipe \<in> set trimmed \<and> length trimmed > 2)"

text \<open>
  The two scans return a JavaScript number, which can be \<open>-1\<close>, so indices are
  integers here. Reading \<open>lines[i]\<close> outside the array gives \<open>undefined\<close>, and
  \<open>isTableRow\<close> then throws a TypeError on \<open>undefined.trim()\<close>.
\<close>

function findTableStart :: "jsstring list \<Rightarrow> int \<Rightarrow> error + int" where
  "findTableStart lines i =
     (if 0 \<le> i then
        (if nat i < length lines then
           (if \<not> isTableRow (lines ! nat i) then Inr (i + 1)
            else findTableStart lines (i - 1))
         else Inl TypeError)
      else Inr 0)"
  by pat_completeness auto
termination
  by (relation "measure (\<lambda>(lines, i). nat (i + 1))") auto

function findTableEnd :: "jsstring list \<Rightarrow> int \<Rightarrow> error + int" where
  "findTableEnd lines i =
     (if i < int (length lines) then
        (if 0 \<le> i then
           (if \<not> isTableRow (lines ! nat i) then Inr (i - 1)
            else findTableEnd lines (i + 1))
         else Inl TypeError)
      else Inr (int (length lines) - 1))"
  by pat_completeness auto
termination
  by (relation "measure (\<lambda>(lines, i). nat (int (length lines) - i))") auto


section \<open>Table parser\<close>

text \<open>The regular expression \<open>/^[\s\|:\-]+$/\<close>: one or more characters of the class.\<close>

definition isSeparatorRow :: "jsstring \<Rightarrow> bool" where
  "isSeparatorRow line =
     (line \<noteq> [] \<and>
      list_all (\<lambda>c. isWhiteSpace c \<or> c = pipe \<or> c = colon \<or> c = hyphen) line)"

text \<open>
  The callback of \<open>.filter((cell, index, array) => ...)\<close>: it drops the cell at index 0
  and the cell at the last index when they are empty.
\<close>

definition outerFilter :: "jsstring list \<Rightarrow> jsstring list" where
  "outerFilter array =
     map snd (filter (\<lambda>(index, cell).
                \<not> (index = 0 \<and> cell = []) \<and>
                \<not> (int index = int (length array) - 1 \<and> cell = []))
              (enumerate 0 array))"

definition lineCells :: "jsstring \<Rightarrow> jsstring list" where
  "lineCells line = outerFilter (map js_trim (js_split pipe line))"

text \<open>The loop of \<open>parseMarkdownTable\<close> from index \<open>i\<close> on; the pushed rows in order.\<close>

fun parseLines :: "nat \<Rightarrow> jsstring list \<Rightarrow> grid" where
  "parseLines i [] = []"
| "parseLines i (l # ls) =
     (let line = js_trim l in
      if i = 1 \<and> isSeparatorRow line then parseLines (Suc i) ls
      else (let cells = lineCells line in
            if length cells > 0 then cells # parseLines (Suc i) ls
            else parseLines (Suc i) ls))"

definition parseMarkdownTable :: "jsstring \<Rightarrow> grid" where
  "parseMarkdownTable tableText =
     parseLines 0 (filter (\<lambda>line. js_trim line \<noteq> []) (js_split newline tableText))"


section \<open>Table formatter\<close>

text \<open>\<open>Math.max(...data.map(row => row.length))\<close>, called on a non-empty \<open>data\<close> only.\<close>

definition maxColsOf :: "grid \<Rightarrow> nat" where
  "maxColsOf data = fold max (map length data) 0"

definition normalizeRow :: "nat \<Rightarrow> jsstring list \<Rightarrow> jsstring list" where
  "normalizeRow maxCols row = row @ replicate (maxCols - length row) []"

text \<open>
  The inner loop \<open>colWidths[i] = Math.max(colWidths[i], row[i].length)\<close> for one row,
  and the outer loop over the rows, starting from \<open>new Array(maxCols).fill(0)\<close>.
  Every normalized row has exactly \<open>maxCols\<close> cells (lemma
  \<open>normalized_rows_length\<close> below), so the index \<open>i\<close> is always inside
  \<open>colWidths\<close> and the array is never extended.
\<close>

definition widenBy :: "jsstring list \<Rightarrow> nat list \<Rightarrow> nat list" where
  "widenBy row colWidths =
     fold (\<lambda>i cw. cw[i := max (cw ! i) (length (row ! i))]) [0..<length row] colWidths"

definition colWidthsOf :: "nat \<Rightarrow> grid \<Rightarrow> nat list" where
  "colWidthsOf maxCols normalizedData = fold widenBy normalizedData (replicate maxCols 0)"

text \<open>
  \<open>row.map((cell, i) => cell.padEnd(colWidths[i]))\<close>; \<open>padEnd(undefined)\<close> pads
  nothing.
\<close>

definition paddedCells :: "nat list \<Rightarrow> jsstring list \<Rightarrow> jsstring list" where
  "paddedCells colWidths row =
     map (\<lambda>(i, cell). padEnd cell (if i < length colWidths then colWidths ! i else 0))
       (enumerate 0 row)"

definition separatorCells :: "nat list \<Rightarrow> jsstring list" where
  "separatorCells colWidths = map (\<lambda>width. js_repeat hyphen width) colWidths"

text \<open>The template literal \<open>`| ${cells.join(" | ")} |`\<close>.\<close>

definition formatLine :: "jsstring list \<Rightarrow> jsstring" where
  "formatLine cells = [pipe, space] @ js_join [space, pipe, space] cells @ [space, pipe]"

text \<open>
  The emitting loop from \<open>rowIndex\<close> on: the cells of every emitted line, the
  separator's after row 0.
\<close>

fun emitRows :: "nat \<Rightarrow> nat list \<Rightarrow> grid \<Rightarrow> grid" where
  "emitRows rowIndex colWidths [] = []"
| "emitRows rowIndex colWidths (row # rows) =
     paddedCells colWidths row
       # (if rowIndex = 0 then [separatorCells colWidths] else [])
       @ emitRows (Suc rowIndex) colWidths rows"

definition generateMarkdownTable :: "grid \<Rightarrow> jsstring" where
  "generateMarkdownTable data =
     (if length data = 0 then []
      else (let maxCols = maxColsOf data;
                normalizedData = map (normalizeRow maxCols) data;
                colWidths = colWidthsOf maxCols normalizedData
            in js_join [newline] (map formatLine (emitRows 0 colWidths normalizedData))))"


section \<open>Grid editor operations\<close>

definition removeLastRow :: "grid \<Rightarrow> grid" where
  "removeLastRow tableData =
     (if length tableData > 1 then butlast tableData else tableData)"

text \<open>\<open>row.pop()\<close> on an empty row leaves it empty, as \<open>butlast\<close> does.\<close>

definition removeLastColumn :: "grid \<Rightarrow> grid" where
  "removeLastColumn tableData =
     (if length tableData > 0 \<and> length (tableData ! 0) > 1
      then map butlast tableData else tableData)"


section \<open>Sort by first column\<close>

text \<open>
  \<open>Array.prototype.sort\<close> is stable (ECMAScript 2019): it is modelled by insertion
  from the right, which puts an element before the first one it does not compare
  greater than.
\<close>

fun insertBy :: "('a \<Rightarrow> 'a \<Rightarrow> int) \<Rightarrow> 'a \<Rightarrow> 'a list \<Rightarrow> 'a list" where
  "insertBy cmp x [] = [x]"
| "insertBy cmp x (y # ys) =
     (if cmp x y \<le> 0 then x # y # ys else y # insertBy cmp x ys)"

definition js_sort :: "('a \<Rightarrow> 'a \<Rightarrow> int) \<Rightarrow> 'a list \<Rightarrow> 'a list" where
  "js_sort cmp xs = foldr (insertBy cmp) xs []"

text \<open>
  \<open>(a[0] || "").trim().toLowerCase()\<close>. \<open>toLowerCase\<close> and \<open>localeCompare\<close>
  belong to the host's Unicode and locale data and are parameters.
\<close>

definition sortKey :: "(jsstring \<Rightarrow> jsstring) \<Rightarrow> jsstring list \<Rightarrow> jsstring" where
  "sortKey toLowerCase a = toLowerCase (js_trim (case a of [] \<Rightarrow> [] | c # _ \<Rightarrow> c))"

definition compareRows ::
  "(jsstring \<Rightarrow> jsstring \<Rightarrow> int) \<Rightarrow> (jsstring \<Rightarrow> jsstring) \<Rightarrow> bool
     \<Rightarrow> jsstring list \<Rightarrow> jsstring list \<Rightarrow> int" where
  "compareRows localeCompare toLowerCase ascending a b =
     (let aValue = sortKey toLowerCase a; bValue = sortKey toLowerCase b
      in if ascending then localeCompare aValue bValue else localeCompare bValue aValue)"

definition sortRows ::
  "(jsstring \<Rightarrow> jsstring \<Rightarrow> int) \<Rightarrow> (jsstring \<Rightarrow> jsstring) \<Rightarrow> bool \<Rightarrow> grid \<Rightarrow> grid" where
  "sortRows localeCompare toLowerCase ascending tableData =
     (let headerRow = tableData ! 0;
          dataRows = drop 1 tableData;
          sortedDataRows = js_sort (compareRows localeCompare toLowerCase ascending) dataRows
      in headerRow # sortedDataRows)"

text \<open>
  The host document is its list of lines; \<open>document.lineAt(i)\<close> throws outside it.
  What \<open>sortTable\<close> does to the host is one of two effects: an information
  message, or the replacement of the range from \<open>(startLine, 0)\<close> to
  \<open>(endLine + 1, 0)\<close> by a text.
\<close>

datatype effect = ShowInformationMessage string | ReplaceLines nat nat jsstring

definition extractTableText :: "jsstring list \<Rightarrow> nat \<Rightarrow> nat \<Rightarrow> error + jsstring" where
  "extractTableText document startLine endLine =
     (if startLine \<le> endLine \<and> length document \<le> endLine then Inl IllegalLine
      else Inr (js_join [newline] (map (\<lambda>i. document ! i) [startLine..<Suc endLine])))"

definition saveTable :: "nat \<Rightarrow> nat \<Rightarrow> grid \<Rightarrow> effect" where
  "saveTable startLine endLine tableData =
     (let markdownTable = generateMarkdownTable tableData
      in ReplaceLines startLine (endLine + 1) (markdownTable @ [newline]))"

definition sortTable ::
  "(jsstring \<Rightarrow> jsstring \<Rightarrow> int) \<Rightarrow> (jsstring \<Rightarrow> jsstring)
     \<Rightarrow> jsstring list \<Rightarrow> nat \<Rightarrow> nat \<Rightarrow> bool \<Rightarrow> error + effect" where
  "sortTable localeCompare toLowerCase document startLine endLine ascending =
     (case extractTableText document startLine endLine of
        Inl e \<Rightarrow> Inl e
      | Inr tableText \<Rightarrow>
          (let tableData = parseMarkdownTable tableText in
           if length tableData \<le> 1
           then Inr (ShowInformationMessage ''Table has no data rows to sort'')
           else Inr (saveTable startLine endLine
                       (sortRows localeCompare toLowerCase ascending tableData))))"


section \<open>A sample host\<close>

text \<open>
  One instance of the two host functions, for the examples: \<open>localeCompare\<close> as the
  comparison of the code units in lexicographic order, \<open>toLowerCase\<close> on the letters
  \<open>A\<close> to \<open>Z\<close> only.
\<close>

definition codeUnitCompare :: "jsstring \<Rightarrow> jsstring \<Rightarrow> int" where
  "codeUnitCompare a b = (if a < b then - 1 else if a = b then 0 else 1)"

definition asciiLowerCase :: "jsstring \<Rightarrow> jsstring" where
  "asciiLowerCase s = map (\<lambda>c. if 0x41 \<le> c \<and> c \<le> 0x5A then c + 0x20 else c) s"


section \<open>Column widths as the specification states them\<close>

text \<open>
  The length of the cell at column \<open>i\<close> of a row once the row is padded with empty
  cells, and the maximum of these lengths over all rows of the Grid.
\<close>

definition cellLength :: "jsstring list \<Rightarrow> nat \<Rightarrow> nat" where
  "cellLength row i = (if i < length row then length (row ! i) else 0)"

definition columnWidth :: "grid \<Rightarrow> nat \<Rightarrow> nat" where
  "columnWidth data i = Max ((\<lambda>row. cellLength row i) ` set data)"


section \<open>Verification\<close>


declare findTableStart.simps [simp del] findTableEnd.simps [simp del]

lemma parseLines_nonempty_rows: "row \<in> set (parseLines i ls) \<Longrightarrow> row \<noteq> []"
  by (induction ls arbitrary: i) (auto simp: Let_def split: if_splits)

text \<open>
  Claim C9: every row of the Grid that the parser produces has at least one cell.
\<close>

theorem parser_rows_have_cells:
  "row \<in> set (parseMarkdownTable tableText) \<Longrightarrow> length row > 0"
  unfolding parseMarkdownTable_def using parseLines_nonempty_rows by fastforce

theorem parser_rows_have_cells_witness:
  "[js ''a''] \<in> set (parseMarkdownTable (js ''|a|'')) \<and> length [js ''a''] > 0"
proof -
  have h: "[js ''a''] \<in> set (parseMarkdownTable (js ''|a|''))" by code_simp
  from parser_rows_have_cells [OF h] h show ?thesis by simp
qed

lemma findTableStart_bounds:
  "0 \<le> i \<Longrightarrow> nat i < length lines \<Longrightarrow>
   \<exists>s. findTableStart lines i = Inr s \<and> 0 \<le> s \<and> s \<le> i + 1 \<and> (isTableRow (lines ! nat i) \<longrightarrow> s \<le> i)"
proof (induction lines i rule: findTableStart.induct)
  case (1 lines i)
  show ?case
  proof (cases "isTableRow (lines ! nat i)")
    case False
    with "1.prems" show ?thesis by (subst findTableStart.simps) simp
  next
    case True
    show ?thesis
    proof (cases "i = 0")
      case True
      have "findTableStart lines (-1) = Inr 0" by (subst findTableStart.simps) simp
      with True \<open>isTableRow (lines ! nat i)\<close> "1.prems" show ?thesis
        by (subst findTableStart.simps) simp
    next
      case False
      with "1.prems" have "0 \<le> i - 1" "nat (i - 1) < length lines" by auto
      from "1.IH" [OF "1.prems"(1) "1.prems"(2) _ this] True
      obtain s where "findTableStart lines (i - 1) = Inr s" "0 \<le> s" "s \<le> i" by auto
      with True "1.prems" show ?thesis by (subst findTableStart.simps) simp
    qed
  qed
qed

lemma findTableEnd_bounds:
  "0 \<le> i \<Longrightarrow> i \<le> int (length lines) \<Longrightarrow>
   \<exists>e. findTableEnd lines i = Inr e \<and> i - 1 \<le> e \<and> e \<le> int (length lines) - 1 \<and>
       (i < int (length lines) \<and> isTableRow (lines ! nat i) \<longrightarrow> i \<le> e)"
proof (induction lines i rule: findTableEnd.induct)
  case (1 lines i)
  show ?case
  proof (cases "i < int (length lines)")
    case False
    with "1.prems" show ?thesis by (subst findTableEnd.simps) simp
  next
    case inb: True
    show ?thesis
    proof (cases "isTableRow (lines ! nat i)")
      case False
      with inb "1.prems" show ?thesis by (subst findTableEnd.simps) simp
    next
      case True
      from inb "1.prems" have "0 \<le> i + 1" "i + 1 \<le> int (length lines)" by auto
      from "1.IH" [OF inb "1.prems"(1) _ this] True
      obtain e where "findTableEnd lines (i + 1) = Inr e" "i \<le> e" "e \<le> int (length lines) - 1" by auto
      with True inb "1.prems" show ?thesis by (subst findTableEnd.simps) simp
    qed
  qed
qed

text \<open>
  Claim C10: at an in-bounds index whose line is table-like, both scans return a
  number (neither throws), the start \<open>s\<close> and the end \<open>e\<close> satisfy
  \<open>0 \<le> s \<le> index \<le> e \<le> lines.length - 1\<close>, and neither is \<open>-1\<close>.
\<close>

theorem span_locator_bounds:
  assumes "0 \<le> index" and "index < int (length lines)" and "isTableRow (lines ! nat index)"
  shows "\<exists>s e. findTableStart lines index = Inr s \<and> findTableEnd lines index = Inr e \<and>
               0 \<le> s \<and> s \<le> index \<and> index \<le> e \<and> e \<le> int (length lines) - 1 \<and>
               s \<noteq> -1 \<and> e \<noteq> -1"
proof -
  from assms have "nat index < length lines" by simp
  from findTableStart_bounds [OF assms(1) this] assms(3)
  obtain s where s: "findTableStart lines index = Inr s" "0 \<le> s" "s \<le> index" by auto
  from assms have "index \<le> int (length lines)" by simp
  from findTableEnd_bounds [OF assms(1) this] assms(2,3)
  obtain e where e: "findTableEnd lines index = Inr e" "index \<le> e" "e \<le> int (length lines) - 1" by auto
  from s e assms(1) show ?thesis by auto
qed

theorem span_locator_bounds_witness:
  "(0::int) \<le> 2 \<and>
   2 < int (length [js ''text'', js ''|a|b|'', js ''|-|-|'', js ''|1|2|'', js ''text'']) \<and>
   isTableRow ([js ''text'', js ''|a|b|'', js ''|-|-|'', js ''|1|2|'', js ''text''] ! nat 2) \<and>
   findTableStart [js ''text'', js ''|a|b|'', js ''|-|-|'', js ''|1|2|'', js ''text''] 2 = Inr 1 \<and>
   findTableEnd [js ''text'', js ''|a|b|'', js ''|-|-|'', js ''|1|2|'', js ''text''] 2 = Inr 3"
proof -
  let ?ls = "[js ''text'', js ''|a|b|'', js ''|-|-|'', js ''|1|2|'', js ''text'']"
  have h: "isTableRow (?ls ! nat 2)" by code_simp
  have b: "(0::int) \<le> 2" "2 < int (length ?ls)" by simp_all
  from span_locator_bounds [OF b h]
  obtain s e where "findTableStart ?ls 2 = Inr s" "findTableEnd ?ls 2 = Inr e"
    "s \<le> 2" "2 \<le> e" by blast
  moreover have "findTableStart ?ls 2 = Inr 1" by code_simp
  moreover have "findTableEnd ?ls 2 = Inr 3" by code_simp
  ultimately show ?thesis using h b by simp
qed

subsection \<open>Removing the last row or column\<close>

lemma removeLastRow_single: "length tableData = 1 \<Longrightarrow> removeLastRow tableData = tableData"
  by (simp add: removeLastRow_def)

lemma removeLastColumn_noop:
  "\<not> (length tableData > 0 \<and> length (tableData ! 0) > 1)
   \<Longrightarrow> removeLastColumn tableData = tableData"
  unfolding removeLastColumn_def by (simp only: if_False)

lemma removeLastColumn_acts:
  "length tableData > 0 \<and> length (tableData ! 0) > 1
   \<Longrightarrow> removeLastColumn tableData = map butlast tableData"
  unfolding removeLastColumn_def by (simp only: if_True simp_thms)

lemma removeLastColumn_header:
  assumes "length tableData > 0 \<and> length (tableData ! 0) > 1"
  shows "length (removeLastColumn tableData ! 0) \<ge> 1"
proof -
  from assms have "map butlast tableData ! 0 = butlast (tableData ! 0)" by (intro nth_map) simp
  moreover from assms have "length (butlast (tableData ! 0)) \<ge> 1"
    unfolding length_butlast by linarith
  ultimately show ?thesis using removeLastColumn_acts [OF assms] by (simp only:)
qed

lemma removeLastColumn_rect:
  assumes "length tableData > 0 \<and> length (tableData ! 0) > 1"
    and "list_all (\<lambda>row. length row = length (tableData ! 0)) tableData"
  shows "list_all (\<lambda>row. length row \<ge> 1) (removeLastColumn tableData)"
proof -
  define n where "n = length (tableData ! 0)"
  from assms(1) have n: "n > 1" by (simp add: n_def)
  from assms(2) have "\<forall>row \<in> set tableData. length row = n"
    unfolding n_def list_all_iff .
  with n have "\<forall>row \<in> set tableData. length (butlast row) \<ge> 1"
    by (auto simp: length_butlast)
  then have "list_all (\<lambda>row. length row \<ge> 1) (map butlast tableData)"
    unfolding list_all_iff by simp
  then show ?thesis using removeLastColumn_acts [OF assms(1)] by (simp only:)
qed

text \<open>
  Claim C7, as stated, fails on a ragged Grid: the guard of \<open>removeLastColumn\<close> looks
  at row 0 only, so a shorter row can lose its only cell.
\<close>

theorem remove_last_column_counterexample:
  "removeLastColumn [[js ''a'', js ''b''], [js ''c'']] = [[js ''a''], []] \<and>
   length (removeLastColumn [[js ''a'', js ''b''], [js ''c'']] ! 1) = 0"
  by (simp add: removeLastColumn_def)

text \<open>
  Claim C7, amended: \<open>removeLastRow\<close> leaves a Grid of exactly one row unchanged;
  \<open>removeLastColumn\<close> leaves a Grid unchanged unless it has a row 0 of more than one
  cell; when it acts it removes the final cell of every row (an empty row stays
  empty), so row 0 keeps at least one cell, and every row does when all rows have as
  many cells as row 0.
\<close>

theorem remove_last_guards:
  "(length tableData = 1 \<longrightarrow> removeLastRow tableData = tableData) \<and>
   (\<not> (length tableData > 0 \<and> length (tableData ! 0) > 1)
      \<longrightarrow> removeLastColumn tableData = tableData) \<and>
   (length tableData > 0 \<and> length (tableData ! 0) > 1
      \<longrightarrow> removeLastColumn tableData = map butlast tableData \<and>
          length (removeLastColumn tableData ! 0) \<ge> 1 \<and>
          (list_all (\<lambda>row. length row = length (tableData ! 0)) tableData
             \<longrightarrow> list_all (\<lambda>row. length row \<ge> 1) (removeLastColumn tableData)))"
  using removeLastRow_single [of tableData] removeLastColumn_noop [of tableData]
    removeLastColumn_acts [of tableData] removeLastColumn_header [of tableData]
    removeLastColumn_rect [of tableData] by blast

theorem remove_last_guards_witness:
  "removeLastRow [[js ''a'']] = [[js ''a'']] \<and>
   removeLastColumn [[js ''a''], [js ''b'']] = [[js ''a''], [js ''b'']] \<and>
   removeLastColumn [[js ''a'', js ''b''], [js ''c'', js ''d'']] = [[js ''a''], [js ''c'']] \<and>
   list_all (\<lambda>row. length row \<ge> 1) (removeLastColumn [[js ''a'', js ''b''], [js ''c'', js ''d'']])"
proof -
  have 1: "length [[js ''a'']] = 1" by simp
  have 2: "\<not> (length [[js ''a''], [js ''b'']] > 0 \<and> length ([[js ''a''], [js ''b'']] ! 0) > 1)"
    by simp
  let ?g = "[[js ''a'', js ''b''], [js ''c'', js ''d'']]"
  have 3: "length ?g > 0 \<and> length (?g ! 0) > 1" by simp
  have 4: "list_all (\<lambda>row. length row = length (?g ! 0)) ?g" by simp
  have 5: "map butlast ?g = [[js ''a''], [js ''c'']]" by simp
  from remove_last_guards [of "[[js ''a'']]"] 1
  have a: "removeLastRow [[js ''a'']] = [[js ''a'']]" by blast
  from remove_last_guards [of "[[js ''a''], [js ''b'']]"] 2
  have b: "removeLastColumn [[js ''a''], [js ''b'']] = [[js ''a''], [js ''b'']]" by blast
  from remove_last_guards [of ?g] 3 4
  have c: "removeLastColumn ?g = map butlast ?g \<and>
          list_all (\<lambda>row. length row \<ge> 1) (removeLastColumn ?g)" by blast
  from c 5 have d: "removeLastColumn ?g = [[js ''a''], [js ''c'']]" by (simp only:)
  from a b c d show ?thesis by blast
qed

subsection \<open>Sorting a table without data rows\<close>

text \<open>
  Claim C8: when the parsed Grid has one or zero rows, \<open>sortTable\<close> does not fail; its
  only effect is the information message that the table has no data rows to sort,
  and no replacement of the document's lines is issued.
\<close>

theorem sort_without_data_rows:
  assumes "extractTableText document startLine endLine = Inr tableText"
    and "length (parseMarkdownTable tableText) \<le> 1"
  shows "sortTable localeCompare toLowerCase document startLine endLine ascending
           = Inr (ShowInformationMessage ''Table has no data rows to sort'')"
  using assms by (simp add: sortTable_def)

theorem sort_without_data_rows_witness:
  "extractTableText [js ''| a |'', js ''| - |''] 0 1
     = Inr (js ''| a |'' @ [newline] @ js ''| - |'') \<and>
   length (parseMarkdownTable (js ''| a |'' @ [newline] @ js ''| - |'')) \<le> 1 \<and>
   sortTable codeUnitCompare asciiLowerCase
       [js ''| a |'', js ''| - |''] 0 1 True
     = Inr (ShowInformationMessage ''Table has no data rows to sort'')"
proof -
  have h1: "extractTableText [js ''| a |'', js ''| - |''] 0 1
              = Inr (js ''| a |'' @ [newline] @ js ''| - |'')"
    by code_simp
  have h2: "length (parseMarkdownTable (js ''| a |'' @ [newline] @ js ''| - |'')) \<le> 1"
    by code_simp
  from sort_without_data_rows [OF h1 h2] h1 h2 show ?thesis by blast
qed

subsection \<open>Trimming, splitting and joining\<close>


lemma all_dropWhile: "(\<forall>x \<in> set (dropWhile P xs). P x) \<longleftrightarrow> (\<forall>x \<in> set xs. P x)"
proof
  assume a: "\<forall>x \<in> set (dropWhile P xs). P x"
  have "dropWhile P xs = []"
  proof (rule ccontr)
    assume n: "dropWhile P xs \<noteq> []"
    then have "\<not> P (hd (dropWhile P xs))" by (rule hd_dropWhile)
    moreover from n have "hd (dropWhile P xs) \<in> set (dropWhile P xs)" by simp
    ultimately show False using a by blast
  qed
  then show "\<forall>x \<in> set xs. P x" by (simp only: dropWhile_eq_Nil_conv)
next
  assume "\<forall>x \<in> set xs. P x"
  then show "\<forall>x \<in> set (dropWhile P xs). P x" by (blast dest: set_dropWhileD)
qed

lemma trim_eq_Nil: "js_trim s = [] \<longleftrightarrow> list_all isWhiteSpace s"
proof -
  have "js_trim s = [] \<longleftrightarrow> dropWhile isWhiteSpace (rev (dropWhile isWhiteSpace s)) = []"
    by (simp add: js_trim_def)
  also have "\<dots> \<longleftrightarrow> (\<forall>x \<in> set (dropWhile isWhiteSpace s). isWhiteSpace x)"
    by (simp only: dropWhile_eq_Nil_conv set_rev)
  also have "\<dots> \<longleftrightarrow> list_all isWhiteSpace s"
    by (simp only: all_dropWhile list_all_iff)
  finally show ?thesis .
qed

lemma trim_all_ws: "list_all isWhiteSpace s \<Longrightarrow> js_trim s = []"
  by (simp only: trim_eq_Nil)

lemma dropWhile_ws_prepend:
  "list_all isWhiteSpace a \<Longrightarrow> dropWhile isWhiteSpace (a @ s) = dropWhile isWhiteSpace s"
  by (rule dropWhile_append2) (simp add: list_all_iff)

lemma trim_ws_prepend: "list_all isWhiteSpace a \<Longrightarrow> js_trim (a @ s) = js_trim s"
  by (simp only: js_trim_def dropWhile_ws_prepend)

lemma trim_ws_append:
  assumes "list_all isWhiteSpace a"
  shows "js_trim (s @ a) = js_trim s"
proof (cases "list_all isWhiteSpace s")
  case True
  with assms have "list_all isWhiteSpace (s @ a)" by simp
  then show ?thesis using True by (simp only: trim_all_ws)
next
  case False
  then obtain x where x: "x \<in> set s" "\<not> isWhiteSpace x" by (auto simp: list_all_iff)
  then have 1: "dropWhile isWhiteSpace (s @ a) = dropWhile isWhiteSpace s @ a"
    by (rule dropWhile_append1)
  from assms have "list_all isWhiteSpace (rev a)" by (simp add: list_all_iff)
  then have 2: "dropWhile isWhiteSpace (rev a @ ys) = dropWhile isWhiteSpace ys" for ys
    by (rule dropWhile_ws_prepend)
  show ?thesis unfolding js_trim_def 1 rev_append 2 ..
qed

lemma trim_id:
  assumes "s \<noteq> []" "\<not> isWhiteSpace (hd s)" "\<not> isWhiteSpace (last s)"
  shows "js_trim s = s"
proof -
  from assms(1,2) have 1: "dropWhile isWhiteSpace s = s" by (cases s) simp_all
  from assms(1,3) have "dropWhile isWhiteSpace (rev s) = rev s"
    by (cases "rev s") (simp_all add: last_rev [symmetric] hd_rev)
  with 1 show ?thesis by (simp add: js_trim_def)
qed

lemma trim_ends:
  assumes "js_trim s \<noteq> []"
  shows "\<not> isWhiteSpace (hd (js_trim s)) \<and> \<not> isWhiteSpace (last (js_trim s))"
proof -
  define d where "d = dropWhile isWhiteSpace s"
  define e where "e = dropWhile isWhiteSpace (rev d)"
  have t: "js_trim s = rev e" by (simp add: js_trim_def d_def e_def)
  with assms have e: "e \<noteq> []" by simp
  then have d: "d \<noteq> []" by (auto simp: e_def)
  from e have l: "\<not> isWhiteSpace (hd e)" unfolding e_def by (rule hd_dropWhile)
  from d have h: "\<not> isWhiteSpace (hd d)" unfolding d_def by (rule hd_dropWhile)
  have "rev d = takeWhile isWhiteSpace (rev d) @ e" by (simp add: e_def)
  then have "d = rev e @ rev (takeWhile isWhiteSpace (rev d))"
    by (metis rev_append rev_rev_ident)
  with e have "hd d = hd (rev e)" by (metis hd_append2 rev_is_Nil_conv)
  with h l e show ?thesis by (simp add: t last_rev)
qed

lemma trim_idem: "js_trim (js_trim s) = js_trim s"
proof (cases "js_trim s = []")
  case True
  then have "js_trim (js_trim s) = js_trim []" by (simp only:)
  also have "\<dots> = []" by (simp add: js_trim_def)
  finally show ?thesis using True by (simp only:)
next
  case False
  with trim_ends [OF False] show ?thesis by (simp add: trim_id)
qed

lemma split_not_Nil: "js_split sep s \<noteq> []"
  by (induction s) (auto split: list.splits)

lemma split_no_sep: "sep \<notin> set a \<Longrightarrow> js_split sep a = [a]"
  by (induction a) auto

lemma split_first: "sep \<notin> set a \<Longrightarrow> js_split sep (a @ sep # b) = a # js_split sep b"
  by (induction a) auto

lemma split_last: "sep \<notin> set a \<Longrightarrow> js_split sep (b @ sep # a) = js_split sep b @ [a]"
proof (induction b)
  case Nil
  then show ?case by (simp add: split_no_sep)
next
  case (Cons c b)
  then show ?case using split_not_Nil [of sep b] by (auto split: list.splits)
qed

lemma split_join:
  "xs \<noteq> [] \<Longrightarrow> \<forall>x \<in> set xs. sep \<notin> set x \<Longrightarrow> js_split sep (js_join [sep] xs) = xs"
proof (induction xs)
  case Nil
  then show ?case by simp
next
  case (Cons x xs)
  show ?case
  proof (cases xs)
    case Nil
    with Cons.prems show ?thesis by (simp add: split_no_sep)
  next
    case (Cons y ys)
    with Cons.prems Cons.IH show ?thesis by (simp add: split_first)
  qed
qed

subsection \<open>The cells of one line\<close>


lemma enumerate_snoc: "enumerate n (xs @ [x]) = enumerate n xs @ [(n + length xs, x)]"
  by (simp add: enumerate_append_eq)

lemma outerFilter_single: "outerFilter [a] = (if a = [] then [] else [a])"
  by (simp add: outerFilter_def)

lemma filter_enumerate_middle:
  assumes "\<And>i c. 0 < i \<Longrightarrow> i < n \<Longrightarrow> P (i, c)"
  shows "k > 0 \<Longrightarrow> k + length xs \<le> n \<Longrightarrow> filter P (enumerate k xs) = enumerate k xs"
proof (induction xs arbitrary: k)
  case Nil
  then show ?case by simp
next
  case (Cons x xs)
  from Cons.prems have "P (k, x)" by (intro assms) simp_all
  moreover from Cons.prems have "filter P (enumerate (Suc k) xs) = enumerate (Suc k) xs"
    by (intro Cons.IH) simp_all
  ultimately show ?case by simp
qed

lemma outerFilter_outer:
  "outerFilter (a # xs @ [b]) =
     (if a = [] then [] else [a]) @ xs @ (if b = [] then [] else [b])"
proof -
  let ?n = "Suc (length xs)"
  let ?P = "\<lambda>(index, cell::jsstring).
              \<not> (index = 0 \<and> cell = []) \<and>
              \<not> (int index = int (length (a # xs @ [b])) - 1 \<and> cell = [])"
  have e: "enumerate 0 (a # xs @ [b]) = (0, a) # enumerate 1 xs @ [(?n, b)]"
    by (simp add: enumerate_append_eq)
  have mid: "filter ?P (enumerate 1 xs) = enumerate 1 xs"
    by (rule filter_enumerate_middle [where n = "?n"]) auto
  have "filter ?P (enumerate 0 (a # xs @ [b]))
          = (if a = [] then [] else [(0, a)]) @ enumerate 1 xs @ (if b = [] then [] else [(?n, b)])"
    unfolding e using mid by simp
  then show ?thesis unfolding outerFilter_def by (simp add: map_snd_enumerate)
qed

lemma list_ends: "length xs \<ge> 2 \<Longrightarrow> \<exists>mid. xs = hd xs # mid @ [last xs]"
proof -
  assume "length xs \<ge> 2"
  then obtain a ys where xs: "xs = a # ys" and ys: "length ys \<ge> 1" by (cases xs) auto
  from ys have ne: "ys \<noteq> []" by auto
  then have "ys = butlast ys @ [last ys]" by simp
  with xs ne have "xs = hd xs # butlast ys @ [last xs]" by simp
  then show ?thesis by blast
qed



lemma first_segment:
  assumes "t = a @ pipe # r" "pipe \<notin> set a" "\<not> isWhiteSpace (hd t)"
  shows "js_trim a = [] \<longleftrightarrow> hd t = pipe"
proof (cases a)
  case Nil
  with assms(1) show ?thesis by (simp add: js_trim_def)
next
  case (Cons c cs)
  with assms have "hd t = c" "c \<noteq> pipe" "\<not> isWhiteSpace c" by auto
  with Cons show ?thesis by (auto simp: trim_eq_Nil)
qed

lemma last_segment:
  assumes "t = b @ pipe # z" "pipe \<notin> set z" "\<not> isWhiteSpace (last t)"
  shows "js_trim z = [] \<longleftrightarrow> last t = pipe"
proof (cases "z = []")
  case True
  with assms(1) show ?thesis by (simp add: js_trim_def)
next
  case False
  with assms have "last t = last z" "last z \<in> set z" "\<not> isWhiteSpace (last z)" by auto
  with assms(2) show ?thesis by (auto simp: trim_eq_Nil list_all_iff)
qed

lemma lineCells_trimmed:
  assumes "t \<noteq> []" "\<not> isWhiteSpace (hd t)" "\<not> isWhiteSpace (last t)"
  shows "(hd (map js_trim (js_split pipe t)) = [] \<longleftrightarrow> hd t = pipe) \<and>
         (last (map js_trim (js_split pipe t)) = [] \<longleftrightarrow> last t = pipe) \<and>
         lineCells t =
           (if hd t = pipe then drop 1 else id)
             ((if last t = pipe then butlast else id) (map js_trim (js_split pipe t)))"
proof (cases "pipe \<in> set t")
  case False
  then have s: "js_split pipe t = [t]" by (rule split_no_sep)
  from assms have tt: "js_trim t = t" by (rule trim_id)
  from assms(1) False have "hd t \<noteq> pipe" "last t \<noteq> pipe"
    using hd_in_set last_in_set by metis+
  with s tt assms(1) show ?thesis by (simp add: lineCells_def outerFilter_single)
next
  case True
  from split_list_first [OF True] obtain a r where ar: "t = a @ pipe # r" "pipe \<notin> set a" by blast
  from split_list_last [OF True] obtain b z where bz: "t = b @ pipe # z" "pipe \<notin> set z" by blast
  have s1: "js_split pipe t = a # js_split pipe r" unfolding ar(1) using ar(2) by (rule split_first)
  have s2: "js_split pipe t = js_split pipe b @ [z]" unfolding bz(1) using bz(2) by (rule split_last)
  from s1 split_not_Nil [of pipe r] have len: "length (js_split pipe t) \<ge> 2"
    by (cases "js_split pipe r") simp_all
  from s1 have h: "hd (js_split pipe t) = a" by simp
  from s2 have l: "last (js_split pipe t) = z" by simp
  from list_ends [OF len] h l obtain mid where m: "js_split pipe t = a # mid @ [z]" by auto
  have fa: "js_trim a = [] \<longleftrightarrow> hd t = pipe" using ar assms(2) by (rule first_segment)
  have fz: "js_trim z = [] \<longleftrightarrow> last t = pipe" using bz assms(3) by (rule last_segment)
  have c: "map js_trim (js_split pipe t) = js_trim a # map js_trim mid @ [js_trim z]"
    by (simp add: m)
  have "lineCells t = (if js_trim a = [] then [] else [js_trim a]) @ map js_trim mid
                        @ (if js_trim z = [] then [] else [js_trim z])"
    unfolding lineCells_def c by (rule outerFilter_outer)
  with fa fz show ?thesis unfolding c by (simp add: butlast_append)
qed

text \<open>
  Claim C6: for a line whose trimmed text is not empty, the cells are the trimmed
  pieces of the split on the pipe character; the leading piece is empty exactly when
  the trimmed line starts with a pipe and is dropped exactly then, the trailing piece
  is empty exactly when the trimmed line ends with a pipe and is dropped exactly then.
  The lines \<open>| a | b |\<close> and \<open>a | b\<close> both parse to the cells \<open>a\<close>, \<open>b\<close>.
\<close>

theorem line_cells_outer_pipes:
  "(js_trim l \<noteq> [] \<longrightarrow>
      (let line = js_trim l; cells = map js_trim (js_split pipe line) in
         (hd cells = [] \<longleftrightarrow> hd line = pipe) \<and>
         (last cells = [] \<longleftrightarrow> last line = pipe) \<and>
         lineCells line =
           (if hd line = pipe then drop 1 else id)
             ((if last line = pipe then butlast else id) cells))) \<and>
   parseMarkdownTable (js ''| a | b |'') = [[js ''a'', js ''b'']] \<and>
   parseMarkdownTable (js ''a | b'') = [[js ''a'', js ''b'']]"
proof -
  have 1: "parseMarkdownTable (js ''| a | b |'') = [[js ''a'', js ''b'']]" by code_simp
  have 2: "parseMarkdownTable (js ''a | b'') = [[js ''a'', js ''b'']]" by code_simp
  have 3: ?thesis if "js_trim l \<noteq> []"
    using lineCells_trimmed [OF that] trim_ends [OF that] 1 2 unfolding Let_def by blast
  with 1 2 show ?thesis by blast
qed

theorem line_cells_outer_pipes_witness:
  "js_trim (js '' | a | b '') \<noteq> [] \<and>
   hd (js_trim (js '' | a | b '')) = pipe \<and>
   last (js_trim (js '' | a | b '')) \<noteq> pipe \<and>
   lineCells (js_trim (js '' | a | b '')) = [js ''a'', js ''b'']"
proof -
  have h: "js_trim (js '' | a | b '') \<noteq> []" by code_simp
  have a: "hd (js_trim (js '' | a | b '')) = pipe" by code_simp
  have b: "last (js_trim (js '' | a | b '')) \<noteq> pipe" by code_simp
  have c: "drop 1 (map js_trim (js_split pipe (js_trim (js '' | a | b '')))) = [js ''a'', js ''b'']"
    by code_simp
  from line_cells_outer_pipes [of "js '' | a | b ''"] h a b
  have "lineCells (js_trim (js '' | a | b ''))
          = drop 1 (map js_trim (js_split pipe (js_trim (js '' | a | b ''))))"
    unfolding Let_def by simp
  with h a b c show ?thesis by (simp only: simp_thms)
qed

subsection \<open>The separator row\<close>


lemma parseLines_ordinary:
  "i \<ge> 2 \<Longrightarrow> parseLines i ls = filter (\<lambda>cells. cells \<noteq> []) (map (\<lambda>l. lineCells (js_trim l)) ls)"
  by (induction ls arbitrary: i) (simp_all add: Let_def)

text \<open>
  Claim C5, as stated, fails: the parser tests the separator pattern at position 1
  only, so a line of that pattern anywhere else becomes a row of the Grid.
\<close>

theorem separator_counterexample:
  "isSeparatorRow (js_trim (js ''|-|'')) \<and>
   parseMarkdownTable (js ''|a|'' @ [newline] @ js ''|b|'' @ [newline] @ js ''|-|'')
     = [[js ''a''], [js ''b''], [js ''-'']]"
  by code_simp

text \<open>
  Claim C5, amended: a line of the separator pattern that is the second non-blank line
  of the block (position 1) is never represented in the parsed Grid: the rows of the
  Grid are then the non-empty cell lists of the lines at the other positions, in
  order. In every other block (no line at position 1, or one that is not of the
  separator pattern) the rows are the non-empty cell lists of all non-blank lines:
  a line of the separator pattern at any other position is parsed like every other
  line.
\<close>

theorem separator_at_position_one:
  assumes "lines = filter (\<lambda>line. js_trim line \<noteq> []) (js_split newline tableText)"
  shows "parseMarkdownTable tableText =
           filter (\<lambda>cells. cells \<noteq> [])
             (map (\<lambda>l. lineCells (js_trim l))
                (if length lines > 1 \<and> isSeparatorRow (js_trim (lines ! 1))
                 then lines ! 0 # drop 2 lines else lines))"
proof -
  let ?row = "\<lambda>l. lineCells (js_trim l)"
  let ?keep = "filter (\<lambda>cells::jsstring list. cells \<noteq> [])"
  have p: "parseMarkdownTable tableText = parseLines 0 lines"
    unfolding parseMarkdownTable_def assms ..
  have tail: "parseLines 2 rest = ?keep (map ?row rest)" for rest
    by (rule parseLines_ordinary) simp
  show ?thesis
  proof (cases lines)
    case Nil
    with p show ?thesis by simp
  next
    case l0: (Cons l0 ls)
    show ?thesis
    proof (cases ls)
      case Nil
      with l0 p show ?thesis by (simp add: Let_def)
    next
      case (Cons l1 rest)
      with l0 have ls: "lines = l0 # l1 # rest" by simp
      have first: "parseLines 0 (l0 # l1 # rest) = ?keep [?row l0] @ parseLines (Suc 0) (l1 # rest)"
        by (simp add: Let_def)
      show ?thesis
      proof (cases "isSeparatorRow (js_trim l1)")
        case True
        then have "parseLines (Suc 0) (l1 # rest) = parseLines 2 rest"
          by (simp add: numeral_2_eq_2)
        with first tail have "parseLines 0 lines = ?keep (map ?row (l0 # rest))"
          by (simp add: ls)
        with True p show ?thesis by (simp add: ls)
      next
        case False
        then have "parseLines (Suc 0) (l1 # rest) = ?keep [?row l1] @ parseLines 2 rest"
          by (simp add: Let_def numeral_2_eq_2)
        with first tail have "parseLines 0 lines = ?keep (map ?row (l0 # l1 # rest))"
          by (simp add: ls)
        with False p show ?thesis by (simp add: ls)
      qed
    qed
  qed
qed

theorem separator_at_position_one_witness:
  "isSeparatorRow (js_trim (js ''|-|'')) \<and>
   parseMarkdownTable (js ''|a|'' @ [newline] @ js ''|-|'' @ [newline] @ js ''|b|'')
     = [[js ''a''], [js ''b'']] \<and>
   parseMarkdownTable (js ''|a|'' @ [newline] @ js ''|b|'' @ [newline] @ js ''|-|'')
     = [[js ''a''], [js ''b''], [js ''-'']] \<and>
   parseMarkdownTable (js ''|-|'') = [[js ''-'']]"
proof -
  let ?t = "js ''|a|'' @ [newline] @ js ''|-|'' @ [newline] @ js ''|b|''"
  let ?ls = "[js ''|a|'', js ''|-|'', js ''|b|'']"
  let ?u = "js ''|a|'' @ [newline] @ js ''|b|'' @ [newline] @ js ''|-|''"
  let ?ms = "[js ''|a|'', js ''|b|'', js ''|-|'']"
  let ?keep = "filter (\<lambda>cells::jsstring list. cells \<noteq> [])"
  let ?row = "\<lambda>l. lineCells (js_trim l)"
  have s: "isSeparatorRow (js_trim (js ''|-|''))" by code_simp
  have 1: "?ls = filter (\<lambda>line. js_trim line \<noteq> []) (js_split newline ?t)" by code_simp
  have 2: "?keep (map ?row (if length ?ls > 1 \<and> isSeparatorRow (js_trim (?ls ! 1))
                            then ?ls ! 0 # drop 2 ?ls else ?ls)) = [[js ''a''], [js ''b'']]"
    by code_simp
  have 3: "?ms = filter (\<lambda>line. js_trim line \<noteq> []) (js_split newline ?u)" by code_simp
  have 4: "?keep (map ?row (if length ?ms > 1 \<and> isSeparatorRow (js_trim (?ms ! 1))
                            then ?ms ! 0 # drop 2 ?ms else ?ms))
             = [[js ''a''], [js ''b''], [js ''-'']]"
    by code_simp
  have 5: "[js ''|-|''] = filter (\<lambda>line. js_trim line \<noteq> []) (js_split newline (js ''|-|''))"
    by code_simp
  have 6: "?keep (map ?row (if length [js ''|-|''] > 1 \<and> isSeparatorRow (js_trim ([js ''|-|''] ! 1))
                            then [js ''|-|''] ! 0 # drop 2 [js ''|-|''] else [js ''|-|'']))
             = [[js ''-'']]"
    by code_simp
  from separator_at_position_one [OF 1] 2 have a: "parseMarkdownTable ?t = [[js ''a''], [js ''b'']]"
    by (simp only:)
  from separator_at_position_one [OF 3] 4
  have b: "parseMarkdownTable ?u = [[js ''a''], [js ''b''], [js ''-'']]" by (simp only:)
  from separator_at_position_one [OF 5] 6
  have c: "parseMarkdownTable (js ''|-|'') = [[js ''-'']]" by (simp only:)
  from s a b c show ?thesis by (intro conjI) assumption+
qed

subsection \<open>Column widths and padding\<close>


lemma fold_max_Max: "fold max xs (a::nat) = Max (insert a (set xs))"
  by (metis Max.set_eq_fold list.simps(15))

lemma fold_max_0: "xs \<noteq> [] \<Longrightarrow> fold max xs (0::nat) = Max (set xs)"
proof -
  assume "xs \<noteq> []"
  then have "Max (insert 0 (set xs)) = max 0 (Max (set xs))" by (intro Max_insert) simp_all
  then show ?thesis by (simp add: fold_max_Max)
qed

lemma maxColsOf_ge: "row \<in> set data \<Longrightarrow> length row \<le> maxColsOf data"
  unfolding maxColsOf_def fold_max_Max by (intro Max_ge) auto

lemma length_normalizeRow: "length row \<le> m \<Longrightarrow> length (normalizeRow m row) = m"
  by (simp add: normalizeRow_def)

lemma normalizeRow_nth:
  "i < m \<Longrightarrow> length (normalizeRow m row ! i) = cellLength row i"
  by (simp add: normalizeRow_def cellLength_def nth_append)

lemma normalized_rows_length:
  "row \<in> set (map (normalizeRow (maxColsOf data)) data) \<Longrightarrow> length row = maxColsOf data"
  by (auto simp: length_normalizeRow maxColsOf_ge)

lemma widen_prefix:
  "k \<le> length row \<Longrightarrow> length row = length cw \<Longrightarrow>
   fold (\<lambda>i cw. cw[i := max (cw ! i) (length (row ! i))]) [0..<k] cw
     = map (\<lambda>i. if i < k then max (cw ! i) (length (row ! i)) else cw ! i) [0..<length cw]"
proof (induction k)
  case 0
  then show ?case by (simp add: map_nth)
next
  case (Suc k)
  then have IH: "fold (\<lambda>i cw. cw[i := max (cw ! i) (length (row ! i))]) [0..<k] cw
     = map (\<lambda>i. if i < k then max (cw ! i) (length (row ! i)) else cw ! i) [0..<length cw]"
    by simp
  from Suc.prems have k: "k < length cw" by simp
  show ?case
    unfolding upt_Suc_append [OF le0] fold_append comp_def IH
    using k by (intro nth_equalityI) (auto simp: nth_list_update less_Suc_eq)
qed

lemma widenBy_nth:
  assumes "length row = length cw" "i < length cw"
  shows "length (widenBy row cw) = length cw"
    and "widenBy row cw ! i = max (cw ! i) (length (row ! i))"
proof -
  have "widenBy row cw = map (\<lambda>i. if i < length row then max (cw ! i) (length (row ! i)) else cw ! i) [0..<length cw]"
    unfolding widenBy_def using assms(1) by (intro widen_prefix) simp_all
  with assms show "length (widenBy row cw) = length cw"
    and "widenBy row cw ! i = max (cw ! i) (length (row ! i))" by simp_all
qed

lemma length_widenBy: "length row = length cw \<Longrightarrow> length (widenBy row cw) = length cw"
proof -
  assume a: "length row = length cw"
  have "widenBy row cw = map (\<lambda>i. if i < length row then max (cw ! i) (length (row ! i)) else cw ! i) [0..<length cw]"
    unfolding widenBy_def using a by (intro widen_prefix) simp_all
  then show ?thesis by simp
qed

lemma fold_widenBy:
  "\<forall>row \<in> set nd. length row = length cw \<Longrightarrow>
   length (fold widenBy nd cw) = length cw \<and>
   (\<forall>i < length cw. fold widenBy nd cw ! i = fold max (map (\<lambda>row. length (row ! i)) nd) (cw ! i))"
proof (induction nd arbitrary: cw)
  case Nil
  then show ?case by simp
next
  case (Cons row nd)
  from Cons.prems have l: "length row = length cw" by simp
  then have lw: "length (widenBy row cw) = length cw" by (rule length_widenBy)
  from Cons.prems lw have "\<forall>r \<in> set nd. length r = length (widenBy row cw)" by simp
  from Cons.IH [OF this] lw widenBy_nth(2) [OF l]
  show ?case by (simp add: max.commute)
qed

lemma colWidthsOf_nth:
  assumes "data \<noteq> []" "i < maxColsOf data"
  shows "length (colWidthsOf (maxColsOf data) (map (normalizeRow (maxColsOf data)) data)) = maxColsOf data"
    and "colWidthsOf (maxColsOf data) (map (normalizeRow (maxColsOf data)) data) ! i = columnWidth data i"
proof -
  let ?m = "maxColsOf data"
  let ?nd = "map (normalizeRow ?m) data"
  have "\<forall>row \<in> set ?nd. length row = length (replicate ?m (0::nat))"
    using normalized_rows_length by simp
  from fold_widenBy [OF this]
  have len: "length (colWidthsOf ?m ?nd) = ?m"
    and nth: "colWidthsOf ?m ?nd ! i = fold max (map (\<lambda>row. length (row ! i)) ?nd) 0"
    using assms(2) by (simp_all add: colWidthsOf_def)
  show "length (colWidthsOf ?m ?nd) = ?m" by (rule len)
  have "map (\<lambda>row. length (row ! i)) ?nd = map (\<lambda>row. cellLength row i) data"
    using assms(2) by (simp add: normalizeRow_nth)
  with nth assms(1) show "colWidthsOf ?m ?nd ! i = columnWidth data i"
    by (simp add: fold_max_0 columnWidth_def)
qed

lemma length_colWidthsOf:
  "length (colWidthsOf (maxColsOf data) (map (normalizeRow (maxColsOf data)) data)) = maxColsOf data"
proof -
  have "\<forall>row \<in> set (map (normalizeRow (maxColsOf data)) data). length row = length (replicate (maxColsOf data) (0::nat))"
    using normalized_rows_length by simp
  from fold_widenBy [OF this] show ?thesis by (simp add: colWidthsOf_def)
qed



lemma length_paddedCells: "length (paddedCells cw row) = length row"
  by (simp add: paddedCells_def)

lemma paddedCells_nth:
  "i < length row \<Longrightarrow> length row = length cw \<Longrightarrow>
   paddedCells cw row ! i = padEnd (row ! i) (cw ! i)"
  by (simp add: paddedCells_def nth_enumerate_eq)

lemma emitRows_tail: "k > 0 \<Longrightarrow> emitRows k cw rows = map (paddedCells cw) rows"
  by (induction rows arbitrary: k) simp_all

lemma emitRows_0:
  "emitRows 0 cw (row # rows) = paddedCells cw row # separatorCells cw # map (paddedCells cw) rows"
  by (simp add: emitRows_tail)

lemma columnWidth_ge: "row \<in> set data \<Longrightarrow> cellLength row i \<le> columnWidth data i"
  unfolding columnWidth_def by (intro Max_ge) auto

lemma padded_normalized:
  assumes "row \<in> set data" "i < maxColsOf data"
  shows "paddedCells (colWidthsOf (maxColsOf data) (map (normalizeRow (maxColsOf data)) data))
           (normalizeRow (maxColsOf data) row) ! i
         = normalizeRow (maxColsOf data) row ! i
             @ replicate (columnWidth data i - cellLength row i) space"
proof -
  let ?m = "maxColsOf data"
  let ?cw = "colWidthsOf ?m (map (normalizeRow ?m) data)"
  from assms(1) have ne: "data \<noteq> []" by auto
  from assms(1) have l: "length (normalizeRow ?m row) = ?m"
    by (simp add: length_normalizeRow maxColsOf_ge)
  have "paddedCells ?cw (normalizeRow ?m row) ! i = padEnd (normalizeRow ?m row ! i) (?cw ! i)"
    using assms(2) l by (intro paddedCells_nth) (simp_all add: length_colWidthsOf)
  also have "?cw ! i = columnWidth data i" using ne assms(2) by (rule colWidthsOf_nth(2))
  finally show ?thesis using assms(2) by (simp add: padEnd_def normalizeRow_nth)
qed

lemma separator_normalized:
  assumes "data \<noteq> []"
  shows "separatorCells (colWidthsOf (maxColsOf data) (map (normalizeRow (maxColsOf data)) data))
         = map (\<lambda>i. js_repeat hyphen (columnWidth data i)) [0..<maxColsOf data]"
  using assms
  by (intro nth_equalityI) (simp_all add: separatorCells_def length_colWidthsOf colWidthsOf_nth(2))

text \<open>
  Claim C3: for a Grid with at least one row, the formatter's text is the emitted cell
  lists rendered line by line; every padded cell is the cell (of the row padded with
  empty cells) followed by spaces; every emitted cell of a column, the separator's
  included, has the length of the longest cell of that column over all padded rows;
  and the separator's cell of a column is a run of hyphens of exactly that length.
\<close>

theorem padding_correctness:
  assumes "data \<noteq> []"
  shows "(let maxCols = maxColsOf data;
              normalizedData = map (normalizeRow maxCols) data;
              colWidths = colWidthsOf maxCols normalizedData;
              emitted = emitRows 0 colWidths normalizedData
          in generateMarkdownTable data = js_join [newline] (map formatLine emitted) \<and>
             emitted = paddedCells colWidths (hd normalizedData) # separatorCells colWidths
                         # map (paddedCells colWidths) (tl normalizedData) \<and>
             (\<forall>row \<in> set data. \<forall>i < maxCols.
                paddedCells colWidths (normalizeRow maxCols row) ! i
                  = normalizeRow maxCols row ! i
                      @ replicate (columnWidth data i - cellLength row i) space) \<and>
             (\<forall>cells \<in> set emitted.
                length cells = maxCols \<and> (\<forall>i < maxCols. length (cells ! i) = columnWidth data i)) \<and>
             separatorCells colWidths
               = map (\<lambda>i. js_repeat hyphen (columnWidth data i)) [0..<maxCols])"
proof -
  let ?m = "maxColsOf data"
  let ?nd = "map (normalizeRow ?m) data"
  let ?cw = "colWidthsOf ?m ?nd"
  let ?em = "emitRows 0 ?cw ?nd"
  from assms obtain r rs where data: "data = r # rs" by (cases data) auto
  have 1: "generateMarkdownTable data = js_join [newline] (map formatLine ?em)"
    using assms by (simp add: generateMarkdownTable_def Let_def)
  have 2: "?em = paddedCells ?cw (hd ?nd) # separatorCells ?cw # map (paddedCells ?cw) (tl ?nd)"
  proof -
    from assms have "?nd = hd ?nd # tl ?nd" by simp
    then have "?em = emitRows 0 ?cw (hd ?nd # tl ?nd)" by (simp only:)
    then show ?thesis by (simp only: emitRows_0)
  qed
  have 3: "\<forall>row \<in> set data. \<forall>i < ?m.
             paddedCells ?cw (normalizeRow ?m row) ! i
               = normalizeRow ?m row ! i @ replicate (columnWidth data i - cellLength row i) space"
    using padded_normalized by blast
  have 5: "separatorCells ?cw = map (\<lambda>i. js_repeat hyphen (columnWidth data i)) [0..<?m]"
    using assms by (rule separator_normalized)
  have pad: "length (paddedCells ?cw (normalizeRow ?m row)) = ?m \<and>
             (\<forall>i < ?m. length (paddedCells ?cw (normalizeRow ?m row) ! i) = columnWidth data i)"
    if "row \<in> set data" for row
  proof (intro conjI allI impI)
    show "length (paddedCells ?cw (normalizeRow ?m row)) = ?m"
      using that by (simp add: length_paddedCells length_normalizeRow maxColsOf_ge)
    fix i assume i: "i < ?m"
    from columnWidth_ge [OF that, of i] padded_normalized [OF that i] i
    show "length (paddedCells ?cw (normalizeRow ?m row) ! i) = columnWidth data i"
      by (simp add: normalizeRow_nth)
  qed
  have sep: "length (separatorCells ?cw) = ?m \<and>
             (\<forall>i < ?m. length (separatorCells ?cw ! i) = columnWidth data i)"
    unfolding 5 by (simp add: js_repeat_def)
  have "set ?em = insert (separatorCells ?cw) ((\<lambda>row. paddedCells ?cw (normalizeRow ?m row)) ` set data)"
    unfolding 2 using assms by (cases data) auto
  with pad sep have 4: "\<forall>cells \<in> set ?em.
      length cells = ?m \<and> (\<forall>i < ?m. length (cells ! i) = columnWidth data i)"
    by auto
  from 1 2 3 4 5 show ?thesis unfolding Let_def by blast
qed



theorem padding_correctness_witness:
  "[[js ''ab'', js ''c''], [js ''d'']] \<noteq> [] \<and>
   columnWidth [[js ''ab'', js ''c''], [js ''d'']] 0 = 2 \<and>
   columnWidth [[js ''ab'', js ''c''], [js ''d'']] 1 = 1 \<and>
   separatorCells (colWidthsOf (maxColsOf [[js ''ab'', js ''c''], [js ''d'']])
       (map (normalizeRow (maxColsOf [[js ''ab'', js ''c''], [js ''d'']]))
          [[js ''ab'', js ''c''], [js ''d'']]))
     = [js ''--'', js ''-''] \<and>
   generateMarkdownTable [[js ''ab'', js ''c''], [js ''d'']]
     = js ''| ab | c |'' @ [newline] @ js ''| -- | - |'' @ [newline] @ js ''| d  |   |''"
proof -
  let ?d = "[[js ''ab'', js ''c''], [js ''d'']]"
  have ne: "?d \<noteq> []" by simp
  have m: "maxColsOf ?d = 2" by code_simp
  have w0: "columnWidth ?d 0 = 2" by code_simp
  have w1: "columnWidth ?d 1 = 1" by code_simp
  have r: "map (\<lambda>i. js_repeat hyphen (columnWidth ?d i)) [0..<maxColsOf ?d] = [js ''--'', js ''-'']"
    by code_simp
  have g: "generateMarkdownTable ?d
     = js ''| ab | c |'' @ [newline] @ js ''| -- | - |'' @ [newline] @ js ''| d  |   |''"
    by code_simp
  from padding_correctness [OF ne]
  have "separatorCells (colWidthsOf (maxColsOf ?d) (map (normalizeRow (maxColsOf ?d)) ?d))
          = map (\<lambda>i. js_repeat hyphen (columnWidth ?d i)) [0..<maxColsOf ?d]"
    unfolding Let_def by blast
  with r ne w0 w1 g show ?thesis by (simp only: simp_thms)
qed

subsection \<open>Sorting by the first column\<close>


lemma mset_insertBy: "mset (insertBy cmp x ys) = add_mset x (mset ys)"
  by (induction ys) simp_all

lemma mset_js_sort: "mset (js_sort cmp xs) = mset xs"
  unfolding js_sort_def by (induction xs) (simp_all add: mset_insertBy)

lemma set_insertBy: "set (insertBy cmp x ys) = insert x (set ys)"
  by (metis mset_insertBy set_mset_add_mset_insert set_mset_mset)

lemma sorted_insertBy:
  assumes total: "\<And>a b. cmp a b > 0 \<Longrightarrow> cmp b a \<le> 0"
    and trans: "\<And>a b c. cmp a b \<le> 0 \<Longrightarrow> cmp b c \<le> 0 \<Longrightarrow> cmp a c \<le> 0"
  shows "sorted_wrt (\<lambda>a b. cmp a b \<le> 0) ys \<Longrightarrow> sorted_wrt (\<lambda>a b. cmp a b \<le> 0) (insertBy cmp x ys)"
proof (induction ys)
  case Nil
  then show ?case by simp
next
  case (Cons y ys)
  show ?case
  proof (cases "cmp x y \<le> 0")
    case True
    with Cons.prems trans have "\<forall>z \<in> set ys. cmp x z \<le> 0" by auto
    with True Cons.prems show ?thesis by simp
  next
    case False
    then have "cmp y x \<le> 0" using total [of x y] by simp
    with False Cons show ?thesis by (auto simp: set_insertBy)
  qed
qed

lemma sorted_js_sort:
  assumes "\<And>a b. cmp a b > 0 \<Longrightarrow> cmp b a \<le> 0"
    and "\<And>a b c. cmp a b \<le> 0 \<Longrightarrow> cmp b c \<le> 0 \<Longrightarrow> cmp a c \<le> 0"
  shows "sorted_wrt (\<lambda>a b. cmp a b \<le> 0) (js_sort cmp xs)"
  unfolding js_sort_def
  by (induction xs) (simp_all add: sorted_insertBy [OF assms])

lemma filter_insertBy:
  assumes "\<And>y. P x \<Longrightarrow> P y \<Longrightarrow> cmp x y \<le> 0"
  shows "filter P (insertBy cmp x ys) = (if P x then x # filter P ys else filter P ys)"
  using assms by (induction ys) auto

lemma filter_js_sort:
  assumes "\<And>x y. P x \<Longrightarrow> P y \<Longrightarrow> cmp x y \<le> 0"
  shows "filter P (js_sort cmp xs) = filter P xs"
  unfolding js_sort_def
  by (induction xs) (simp_all add: filter_insertBy assms)



text \<open>
  The sorted Grid, for any Grid of more than one row: the header stays, the other rows
  are rearranged into the order of the comparator, and ties keep their order.
\<close>

lemma sortRows_ordered:
  assumes rows: "length tableData > 1"
    and refl': "\<forall>a. localeCompare a a = 0"
    and anti': "\<forall>a b. localeCompare a b < 0 \<longleftrightarrow> localeCompare b a > 0"
    and trans': "\<forall>a b c. localeCompare a b \<le> 0 \<and> localeCompare b c \<le> 0
                   \<longrightarrow> localeCompare a c \<le> 0"
  shows "(let sorted = sortRows localeCompare toLowerCase ascending tableData in
          sorted ! 0 = tableData ! 0 \<and>
          length sorted = length tableData \<and>
          mset (drop 1 sorted) = mset (drop 1 tableData) \<and>
          sorted_wrt (\<lambda>a b. if ascending
                              then localeCompare (sortKey toLowerCase a) (sortKey toLowerCase b) \<le> 0
                              else localeCompare (sortKey toLowerCase b) (sortKey toLowerCase a) \<le> 0)
            (drop 1 sorted) \<and>
          (\<forall>k. filter (\<lambda>row. localeCompare (sortKey toLowerCase row) k = 0) (drop 1 sorted)
                = filter (\<lambda>row. localeCompare (sortKey toLowerCase row) k = 0) (drop 1 tableData)))"
proof -
  from refl' have refl: "localeCompare a a = 0" for a by blast
  from anti' have anti: "localeCompare a b < 0 \<longleftrightarrow> localeCompare b a > 0" for a b by blast
  from trans' have trans: "localeCompare a b \<le> 0 \<Longrightarrow> localeCompare b c \<le> 0
      \<Longrightarrow> localeCompare a c \<le> 0" for a b c by blast
  let ?cmp = "compareRows localeCompare toLowerCase ascending"
  let ?key = "sortKey toLowerCase"
  let ?d = "drop 1 tableData"
  have s: "sortRows localeCompare toLowerCase ascending tableData = tableData ! 0 # js_sort ?cmp ?d"
    by (simp add: sortRows_def Let_def)
  have eq0: "localeCompare a b = 0 \<longleftrightarrow> localeCompare b a = 0" for a b
    using anti [of a b] anti [of b a] by linarith
  have cmp: "?cmp a b \<le> 0 \<longleftrightarrow>
               (if ascending then localeCompare (?key a) (?key b) \<le> 0
                else localeCompare (?key b) (?key a) \<le> 0)" for a b
    by (simp add: compareRows_def Let_def)
  have total: "?cmp a b > 0 \<Longrightarrow> ?cmp b a \<le> 0" for a b
  proof -
    assume a: "?cmp a b > 0"
    show "?cmp b a \<le> 0"
    proof (cases ascending)
      case True
      with a have "localeCompare (?key a) (?key b) > 0" by (simp add: compareRows_def Let_def)
      then have "localeCompare (?key b) (?key a) < 0" by (simp only: anti)
      with True show ?thesis by (simp add: compareRows_def Let_def)
    next
      case False
      with a have "localeCompare (?key b) (?key a) > 0" by (simp add: compareRows_def Let_def)
      then have "localeCompare (?key a) (?key b) < 0" by (simp only: anti)
      with False show ?thesis by (simp add: compareRows_def Let_def)
    qed
  qed
  have ctrans: "?cmp a b \<le> 0 \<Longrightarrow> ?cmp b c \<le> 0 \<Longrightarrow> ?cmp a c \<le> 0" for a b c
  proof -
    assume ab: "?cmp a b \<le> 0" and bc: "?cmp b c \<le> 0"
    show "?cmp a c \<le> 0"
    proof (cases ascending)
      case True
      with ab bc have "localeCompare (?key a) (?key b) \<le> 0" "localeCompare (?key b) (?key c) \<le> 0"
        by (simp_all add: compareRows_def Let_def)
      then have "localeCompare (?key a) (?key c) \<le> 0" by (rule trans)
      with True show ?thesis by (simp add: compareRows_def Let_def)
    next
      case False
      with ab bc have "localeCompare (?key c) (?key b) \<le> 0" "localeCompare (?key b) (?key a) \<le> 0"
        by (simp_all add: compareRows_def Let_def)
      then have "localeCompare (?key c) (?key a) \<le> 0" by (rule trans)
      with False show ?thesis by (simp add: compareRows_def Let_def)
    qed
  qed
  have 1: "length (js_sort ?cmp ?d) = length ?d"
    by (metis mset_js_sort size_mset)
  have 2: "mset (js_sort ?cmp ?d) = mset ?d" by (rule mset_js_sort)
  have "sorted_wrt (\<lambda>a b. ?cmp a b \<le> 0) (js_sort ?cmp ?d)"
    using total ctrans by (rule sorted_js_sort)
  then have 3: "sorted_wrt (\<lambda>a b. if ascending
                              then localeCompare (?key a) (?key b) \<le> 0
                              else localeCompare (?key b) (?key a) \<le> 0) (js_sort ?cmp ?d)"
    by (simp only: cmp)
  have 4: "filter (\<lambda>row. localeCompare (?key row) k = 0) (js_sort ?cmp ?d)
             = filter (\<lambda>row. localeCompare (?key row) k = 0) ?d" for k
  proof (rule filter_js_sort)
    fix x y
    assume x: "localeCompare (?key x) k = 0" and y: "localeCompare (?key y) k = 0"
    from x have x': "localeCompare k (?key x) = 0" using eq0 [of "?key x" k] by blast
    from y have y': "localeCompare k (?key y) = 0" using eq0 [of "?key y" k] by blast
    from x y' have "localeCompare (?key x) (?key y) \<le> 0" using trans [of "?key x" k "?key y"] by linarith
    moreover from y x' have "localeCompare (?key y) (?key x) \<le> 0"
      using trans [of "?key y" k "?key x"] by linarith
    ultimately show "?cmp x y \<le> 0" by (simp only: cmp if_cancel)
  qed
  from rows 1 have len: "length (tableData ! 0 # js_sort ?cmp ?d) = length tableData" by simp
  have 5: "drop 1 (tableData ! 0 # js_sort ?cmp ?d) = js_sort ?cmp ?d" by simp
  have 6: "(tableData ! 0 # js_sort ?cmp ?d) ! 0 = tableData ! 0" by simp
  from 2 3 4 len 6 show ?thesis unfolding Let_def s 5 by blast
qed



lemma codeUnitCompare_refl: "\<forall>a. codeUnitCompare a a = 0"
  by (simp add: codeUnitCompare_def)

lemma codeUnitCompare_anti: "\<forall>a b. codeUnitCompare a b < 0 \<longleftrightarrow> codeUnitCompare b a > 0"
  by (auto simp: codeUnitCompare_def)

lemma codeUnitCompare_trans:
  "\<forall>a b c. codeUnitCompare a b \<le> 0 \<and> codeUnitCompare b c \<le> 0
     \<longrightarrow> codeUnitCompare a c \<le> 0"
  by (auto simp: codeUnitCompare_def split: if_splits)

lemma sortKey_first_cell: "row \<noteq> [] \<Longrightarrow> sortKey toLowerCase row = toLowerCase (js_trim (hd row))"
  by (cases row) (simp_all add: sortKey_def)

lemma parsed_row_not_Nil: "row \<in> set (parseMarkdownTable tableText) \<Longrightarrow> row \<noteq> []"
  unfolding parseMarkdownTable_def by (rule parseLines_nonempty_rows)

lemma sortTable_saves:
  assumes "extractTableText document startLine endLine = Inr tableText"
    and "length (parseMarkdownTable tableText) > 1"
  shows "sortTable localeCompare toLowerCase document startLine endLine ascending
           = Inr (ReplaceLines startLine (endLine + 1)
                   (generateMarkdownTable
                      (sortRows localeCompare toLowerCase ascending (parseMarkdownTable tableText))
                    @ [newline]))"
  using assms by (simp add: sortTable_def saveTable_def Let_def)

text \<open>
  Claim C4: when the lines of the span parse to a Grid of more than one row and the
  host comparison is a consistent comparator (reflexive, antisymmetric in sign,
  transitive), \<open>sortTable\<close> replaces the span by the formatting of the sorted Grid.
  The sorted Grid keeps row 0; its remaining rows are a rearrangement of the original
  remaining rows, in the order of the host comparison of the first cells, trimmed and
  lower-cased by the host, ascending or descending as requested; rows whose keys
  compare equal keep their original relative order.
\<close>

theorem sort_by_first_column:
  assumes ext: "extractTableText document startLine endLine = Inr tableText"
    and grid: "tableData = parseMarkdownTable tableText"
    and rows: "length tableData > 1"
    and refl': "\<forall>a. localeCompare a a = 0"
    and anti': "\<forall>a b. localeCompare a b < 0 \<longleftrightarrow> localeCompare b a > 0"
    and trans': "\<forall>a b c. localeCompare a b \<le> 0 \<and> localeCompare b c \<le> 0
                   \<longrightarrow> localeCompare a c \<le> 0"
  shows "(let sorted = sortRows localeCompare toLowerCase ascending tableData in
          sortTable localeCompare toLowerCase document startLine endLine ascending
            = Inr (ReplaceLines startLine (endLine + 1)
                    (generateMarkdownTable sorted @ [newline])) \<and>
          sorted ! 0 = tableData ! 0 \<and>
          length sorted = length tableData \<and>
          mset (drop 1 sorted) = mset (drop 1 tableData) \<and>
          sorted_wrt (\<lambda>a b. if ascending
                              then localeCompare (toLowerCase (js_trim (hd a)))
                                     (toLowerCase (js_trim (hd b))) \<le> 0
                              else localeCompare (toLowerCase (js_trim (hd b)))
                                     (toLowerCase (js_trim (hd a))) \<le> 0)
            (drop 1 sorted) \<and>
          (\<forall>k. filter (\<lambda>row. localeCompare (toLowerCase (js_trim (hd row))) k = 0) (drop 1 sorted)
                = filter (\<lambda>row. localeCompare (toLowerCase (js_trim (hd row))) k = 0)
                    (drop 1 tableData)))"
proof -
  let ?s = "sortRows localeCompare toLowerCase ascending tableData"
  let ?key = "\<lambda>row. toLowerCase (js_trim (hd row))"
  from sortRows_ordered [OF rows refl' anti' trans', of toLowerCase ascending]
  have 0: "?s ! 0 = tableData ! 0" and 1: "length ?s = length tableData"
    and 2: "mset (drop 1 ?s) = mset (drop 1 tableData)"
    and 3: "sorted_wrt (\<lambda>a b. if ascending
                then localeCompare (sortKey toLowerCase a) (sortKey toLowerCase b) \<le> 0
                else localeCompare (sortKey toLowerCase b) (sortKey toLowerCase a) \<le> 0) (drop 1 ?s)"
    and 4: "\<And>k. filter (\<lambda>row. localeCompare (sortKey toLowerCase row) k = 0) (drop 1 ?s)
                = filter (\<lambda>row. localeCompare (sortKey toLowerCase row) k = 0) (drop 1 tableData)"
    unfolding Let_def by blast+
  have data: "row \<noteq> []" if "row \<in> set (drop 1 tableData)" for row
    using that grid parsed_row_not_Nil by (metis in_set_dropD)
  from 2 have "set (drop 1 ?s) = set (drop 1 tableData)" by (rule mset_eq_setD)
  with data have sdata: "row \<noteq> []" if "row \<in> set (drop 1 ?s)" for row using that by blast
  have key: "sortKey toLowerCase row = ?key row" if "row \<noteq> []" for row
    using that by (rule sortKey_first_cell)
  have o3: "sorted_wrt (\<lambda>a b. if ascending then localeCompare (?key a) (?key b) \<le> 0
                                else localeCompare (?key b) (?key a) \<le> 0) (drop 1 ?s)"
    using 3
  proof (rule sorted_wrt_mono_rel [rotated])
    fix a b assume "a \<in> set (drop 1 ?s)" "b \<in> set (drop 1 ?s)"
    then have "sortKey toLowerCase a = ?key a" "sortKey toLowerCase b = ?key b"
      using sdata key by blast+
    moreover assume "if ascending
                then localeCompare (sortKey toLowerCase a) (sortKey toLowerCase b) \<le> 0
                else localeCompare (sortKey toLowerCase b) (sortKey toLowerCase a) \<le> 0"
    ultimately show "if ascending then localeCompare (?key a) (?key b) \<le> 0
                                else localeCompare (?key b) (?key a) \<le> 0" by (simp only:)
  qed
  have o4: "filter (\<lambda>row. localeCompare (?key row) k = 0) (drop 1 ?s)
              = filter (\<lambda>row. localeCompare (?key row) k = 0) (drop 1 tableData)" for k
  proof -
    have "filter (\<lambda>row. localeCompare (?key row) k = 0) (drop 1 ?s)
            = filter (\<lambda>row. localeCompare (sortKey toLowerCase row) k = 0) (drop 1 ?s)"
      using sdata key by (intro filter_cong refl) simp
    also have "\<dots> = filter (\<lambda>row. localeCompare (sortKey toLowerCase row) k = 0) (drop 1 tableData)"
      by (rule 4)
    also have "\<dots> = filter (\<lambda>row. localeCompare (?key row) k = 0) (drop 1 tableData)"
      using data key by (intro filter_cong refl) simp
    finally show ?thesis .
  qed
  from rows grid have "length (parseMarkdownTable tableText) > 1" by simp
  from sortTable_saves [OF ext this, of localeCompare toLowerCase ascending] grid
  have 5: "sortTable localeCompare toLowerCase document startLine endLine ascending
            = Inr (ReplaceLines startLine (endLine + 1) (generateMarkdownTable ?s @ [newline]))"
    by simp
  from 0 1 2 o3 o4 5 show ?thesis unfolding Let_def by blast
qed

theorem sort_by_first_column_witness:
  "sortTable codeUnitCompare asciiLowerCase
     [js ''|N|Q|'', js ''|-|-|'', js ''|b|1|'', js ''| A|2|'', js ''|a|3|''] 0 4 True
     = Inr (ReplaceLines 0 5
         (js ''| N | Q |'' @ [newline] @ js ''| - | - |'' @ [newline] @
          js ''| A | 2 |'' @ [newline] @ js ''| a | 3 |'' @ [newline] @
          js ''| b | 1 |'' @ [newline])) \<and>
   sortTable codeUnitCompare asciiLowerCase
     [js ''|N|Q|'', js ''|-|-|'', js ''|b|1|'', js ''| A|2|'', js ''|a|3|''] 0 4 False
     = Inr (ReplaceLines 0 5
         (js ''| N | Q |'' @ [newline] @ js ''| - | - |'' @ [newline] @
          js ''| b | 1 |'' @ [newline] @ js ''| A | 2 |'' @ [newline] @
          js ''| a | 3 |'' @ [newline]))"
proof -
  let ?doc = "[js ''|N|Q|'', js ''|-|-|'', js ''|b|1|'', js ''| A|2|'', js ''|a|3|'']"
  let ?text = "js_join [newline] ?doc"
  let ?grid = "parseMarkdownTable ?text"
  let ?up = "js ''| N | Q |'' @ [newline] @ js ''| - | - |'' @ [newline] @
          js ''| A | 2 |'' @ [newline] @ js ''| a | 3 |'' @ [newline] @
          js ''| b | 1 |'' @ [newline]"
  let ?down = "js ''| N | Q |'' @ [newline] @ js ''| - | - |'' @ [newline] @
          js ''| b | 1 |'' @ [newline] @ js ''| A | 2 |'' @ [newline] @
          js ''| a | 3 |'' @ [newline]"
  have ext: "extractTableText ?doc 0 4 = Inr ?text" by code_simp
  have g: "?grid = [[js ''N'', js ''Q''], [js ''b'', js ''1''], [js ''A'', js ''2''],
                    [js ''a'', js ''3'']]"
    by code_simp
  have rows: "length ?grid > 1" unfolding g by simp
  have up: "generateMarkdownTable (sortRows codeUnitCompare asciiLowerCase True ?grid) @ [newline]
              = ?up"
    unfolding g by code_simp
  have down: "generateMarkdownTable (sortRows codeUnitCompare asciiLowerCase False ?grid) @ [newline]
              = ?down"
    unfolding g by code_simp
  have five: "(4::nat) + 1 = 5" by simp
  from sort_by_first_column [OF ext refl rows codeUnitCompare_refl codeUnitCompare_anti
      codeUnitCompare_trans, of asciiLowerCase True]
  have "sortTable codeUnitCompare asciiLowerCase ?doc 0 4 True
          = Inr (ReplaceLines 0 (4 + 1)
              (generateMarkdownTable (sortRows codeUnitCompare asciiLowerCase True ?grid) @ [newline]))"
    unfolding Let_def by blast
  then have a: "sortTable codeUnitCompare asciiLowerCase ?doc 0 4 True = Inr (ReplaceLines 0 5 ?up)"
    by (simp only: up five)
  from sort_by_first_column [OF ext refl rows codeUnitCompare_refl codeUnitCompare_anti
      codeUnitCompare_trans, of asciiLowerCase False]
  have "sortTable codeUnitCompare asciiLowerCase ?doc 0 4 False
          = Inr (ReplaceLines 0 (4 + 1)
              (generateMarkdownTable (sortRows codeUnitCompare asciiLowerCase False ?grid) @ [newline]))"
    unfolding Let_def by blast
  then have b: "sortTable codeUnitCompare asciiLowerCase ?doc 0 4 False = Inr (ReplaceLines 0 5 ?down)"
    by (simp only: down five)
  from a b show ?thesis by (intro conjI) assumption+
qed

subsection \<open>One formatted line parsed back\<close>


lemma ws_space: "isWhiteSpace space"
  by (simp add: isWhiteSpace_def space_def)

lemma pipe_not_ws: "\<not> isWhiteSpace pipe"
  by (simp add: isWhiteSpace_def pipe_def)

lemma chars_distinct:
  "space \<noteq> pipe" "space \<noteq> newline" "pipe \<noteq> newline" "hyphen \<noteq> newline" "hyphen \<noteq> pipe"
  by (simp_all add: space_def pipe_def newline_def hyphen_def)

lemma js_join_snoc: "xs \<noteq> [] \<Longrightarrow> js_join sep (xs @ [y]) = js_join sep xs @ sep @ y"
proof (induction xs)
  case Nil
  then show ?case by simp
next
  case (Cons x xs)
  then show ?case by (cases xs) simp_all
qed

lemma set_js_join: "set (js_join sep xs) \<subseteq> set sep \<union> \<Union> (set ` set xs)"
proof (induction xs)
  case Nil
  then show ?case by simp
next
  case (Cons x xs)
  then show ?case by (cases xs) auto
qed

lemma join_wrapped:
  "cells \<noteq> [] \<Longrightarrow>
   space # js_join [space, pipe, space] cells @ [space]
     = js_join [pipe] (map (\<lambda>c. space # c @ [space]) cells)"
proof (induction cells)
  case Nil
  then show ?case by simp
next
  case (Cons c cells)
  show ?case
  proof (cases cells)
    case Nil
    then show ?thesis by simp
  next
    case (Cons d ds)
    with Cons.IH have "space # js_join [space, pipe, space] (d # ds) @ [space]
        = js_join [pipe] (map (\<lambda>c. space # c @ [space]) (d # ds))" by simp
    then have "js_join [pipe] (map (\<lambda>c. space # c @ [space]) (c # d # ds))
        = (space # c @ [space]) @ [pipe] @ space # js_join [space, pipe, space] (d # ds) @ [space]"
      by simp
    then show ?thesis unfolding Cons by simp
  qed
qed

lemma formatLine_as_join:
  assumes "cells \<noteq> []"
  shows "formatLine cells = js_join [pipe] ([] # map (\<lambda>c. space # c @ [space]) cells @ [[]])"
proof -
  let ?w = "map (\<lambda>c. space # c @ [space]) cells"
  from assms have w: "?w \<noteq> []" by simp
  then obtain x xs where x: "?w = x # xs" by (cases ?w) auto
  have "js_join [pipe] ([] # ?w @ [[]]) = pipe # js_join [pipe] (?w @ [[]])"
    unfolding x by simp
  also have "js_join [pipe] (?w @ [[]]) = js_join [pipe] ?w @ [pipe]"
    using w by (simp add: js_join_snoc)
  also have "js_join [pipe] ?w = space # js_join [space, pipe, space] cells @ [space]"
    using assms by (rule join_wrapped [symmetric])
  finally show ?thesis by (simp add: formatLine_def)
qed

lemma split_formatLine:
  assumes "cells \<noteq> []" "\<forall>c \<in> set cells. pipe \<notin> set c"
  shows "js_split pipe (formatLine cells) = [] # map (\<lambda>c. space # c @ [space]) cells @ [[]]"
proof -
  have "\<forall>x \<in> set ([] # map (\<lambda>c. space # c @ [space]) cells @ [[]]). pipe \<notin> set x"
    using assms(2) chars_distinct(1) by auto
  then show ?thesis unfolding formatLine_as_join [OF assms(1)]
    by (intro split_join) simp_all
qed

lemma trim_wrapped: "js_trim (space # c @ [space]) = js_trim c"
proof -
  have "js_trim ([space] @ (c @ [space])) = js_trim (c @ [space])"
    by (rule trim_ws_prepend) (simp add: ws_space)
  also have "\<dots> = js_trim c" by (rule trim_ws_append) (simp add: ws_space)
  finally show ?thesis by simp
qed

lemma lineCells_formatLine:
  assumes "cells \<noteq> []" "\<forall>c \<in> set cells. pipe \<notin> set c"
  shows "lineCells (formatLine cells) = map js_trim cells"
proof -
  have e: "js_trim [] = []" by (simp add: js_trim_def)
  have "map js_trim (js_split pipe (formatLine cells))
          = [] # map js_trim cells @ [[]]"
    unfolding split_formatLine [OF assms]
    by (simp add: trim_wrapped e comp_def)
  then show ?thesis unfolding lineCells_def by (simp add: outerFilter_outer)
qed

lemma lineCells_formatLine_Nil: "lineCells (formatLine []) = [[]]"
  by code_simp

lemma trim_formatLine: "js_trim (formatLine cells) = formatLine cells"
proof -
  have "formatLine cells = pipe # (space # js_join [space, pipe, space] cells @ [space]) @ [pipe]"
    by (simp add: formatLine_def)
  then show ?thesis by (simp add: trim_id pipe_not_ws)
qed

lemma formatLine_not_Nil: "formatLine cells \<noteq> []"
  by (simp add: formatLine_def)

lemma newline_formatLine:
  assumes "\<forall>c \<in> set cells. newline \<notin> set c"
  shows "newline \<notin> set (formatLine cells)"
proof -
  have "set (formatLine cells) \<subseteq> {pipe, space} \<union> \<Union> (set ` set cells)"
    using set_js_join [of "[space, pipe, space]" cells] by (auto simp: formatLine_def)
  with assms chars_distinct show ?thesis by auto
qed

lemma separator_formatLine: "isSeparatorRow (formatLine (separatorCells cw))"
proof -
  have "set (formatLine (separatorCells cw)) \<subseteq> {pipe, space} \<union> \<Union> (set ` set (separatorCells cw))"
    using set_js_join [of "[space, pipe, space]" "separatorCells cw"] by (auto simp: formatLine_def)
  also have "\<dots> \<subseteq> {pipe, space, hyphen}"
    by (auto simp: separatorCells_def js_repeat_def)
  finally show ?thesis
    using ws_space by (auto simp: isSeparatorRow_def formatLine_not_Nil list_all_iff)
qed

subsection \<open>Formatting and parsing back\<close>


lemma paddedCells_nth_gen:
  "i < length row \<Longrightarrow>
   paddedCells cw row ! i = padEnd (row ! i) (if i < length cw then cw ! i else 0)"
  by (simp add: paddedCells_def nth_enumerate_eq)

lemma trim_padEnd: "js_trim (padEnd c n) = js_trim c"
  unfolding padEnd_def by (rule trim_ws_append) (simp add: list_all_iff ws_space)

lemma set_padEnd: "set (padEnd c n) \<subseteq> insert space (set c)"
  by (auto simp: padEnd_def)

lemma trim_paddedCells: "map js_trim (paddedCells cw row) = map js_trim row"
  by (intro nth_equalityI) (simp_all add: length_paddedCells paddedCells_nth_gen trim_padEnd)

lemma set_paddedCells:
  assumes "c \<in> set (paddedCells cw row)"
  shows "\<exists>d \<in> set row. set c \<subseteq> insert space (set d)"
proof -
  from assms obtain i where i: "i < length row" "c = paddedCells cw row ! i"
    by (auto simp: in_set_conv_nth length_paddedCells)
  then have "c = padEnd (row ! i) (if i < length cw then cw ! i else 0)"
    by (simp add: paddedCells_nth_gen)
  with i(1) set_padEnd show ?thesis by (metis nth_mem)
qed

lemma paddedCells_free:
  assumes "\<forall>d \<in> set row. x \<notin> set d" "x \<noteq> space"
  shows "\<forall>c \<in> set (paddedCells cw row). x \<notin> set c"
  using assms set_paddedCells by blast

lemma paddedCells_Nil: "paddedCells cw row = [] \<longleftrightarrow> row = []"
  by (metis length_0_conv length_paddedCells)

lemma lineCells_padded:
  assumes "\<forall>c \<in> set row. pipe \<notin> set c"
  shows "lineCells (formatLine (paddedCells cw row)) = (if row = [] then [[]] else map js_trim row)"
proof (cases "row = []")
  case True
  then have "paddedCells cw row = []" by (simp add: paddedCells_Nil)
  with True show ?thesis by (simp add: lineCells_formatLine_Nil)
next
  case False
  then have ne: "paddedCells cw row \<noteq> []" by (simp add: paddedCells_Nil)
  have "\<forall>c \<in> set (paddedCells cw row). pipe \<notin> set c"
    using assms chars_distinct(1) by (intro paddedCells_free) auto
  from lineCells_formatLine [OF ne this] False show ?thesis by (simp add: trim_paddedCells)
qed

lemma newline_padded:
  assumes "\<forall>c \<in> set row. newline \<notin> set c"
  shows "newline \<notin> set (formatLine (paddedCells cw row))"
proof -
  have "\<forall>c \<in> set (paddedCells cw row). newline \<notin> set c"
    using assms chars_distinct(2) by (intro paddedCells_free) auto
  then show ?thesis by (rule newline_formatLine)
qed

lemma newline_separator: "newline \<notin> set (formatLine (separatorCells cw))"
  using chars_distinct(4)
  by (intro newline_formatLine) (auto simp: separatorCells_def js_repeat_def)

lemma parseLines_formatted:
  assumes "\<forall>row \<in> set rows. \<forall>c \<in> set row. pipe \<notin> set c"
  shows "parseLines 2 (map (\<lambda>row. formatLine (paddedCells cw row)) rows)
           = map (\<lambda>row. if row = [] then [[]] else map js_trim row) rows"
proof -
  have "parseLines 2 (map (\<lambda>row. formatLine (paddedCells cw row)) rows)
          = filter (\<lambda>cells. cells \<noteq> [])
              (map (\<lambda>row. lineCells (js_trim (formatLine (paddedCells cw row)))) rows)"
    by (simp add: parseLines_ordinary comp_def)
  also have "map (\<lambda>row. lineCells (js_trim (formatLine (paddedCells cw row)))) rows
          = map (\<lambda>row. if row = [] then [[]] else map js_trim row) rows"
    using assms by (intro map_cong refl) (simp add: trim_formatLine lineCells_padded)
  also have "filter (\<lambda>cells. cells \<noteq> []) \<dots> = \<dots>"
    by (intro filter_True) auto
  finally show ?thesis .
qed



lemma normalizeRow_free:
  "\<forall>c \<in> set row. x \<notin> set c \<Longrightarrow> \<forall>c \<in> set (normalizeRow m row). x \<notin> set c"
  by (auto simp: normalizeRow_def)

lemma parse_emitted:
  assumes pf: "\<forall>row \<in> set (r # rows). \<forall>c \<in> set row. pipe \<notin> set c"
    and nf: "\<forall>row \<in> set (r # rows). \<forall>c \<in> set row. newline \<notin> set c"
  shows "parseMarkdownTable (js_join [newline] (map formatLine (emitRows 0 cw (r # rows))))
           = map (\<lambda>row. if row = [] then [[]] else map js_trim row) (r # rows)"
proof -
  let ?l0 = "formatLine (paddedCells cw r)"
  let ?l1 = "formatLine (separatorCells cw)"
  let ?ls = "map (\<lambda>row. formatLine (paddedCells cw row)) rows"
  let ?lines = "?l0 # ?l1 # ?ls"
  let ?f = "\<lambda>row. if row = [] then [[]] else map js_trim row"
  have lines: "map formatLine (emitRows 0 cw (r # rows)) = ?lines"
    by (simp only: emitRows_0 list.map map_map comp_def)
  have "\<forall>l \<in> set ?lines. newline \<notin> set l"
    using nf newline_separator [of cw] by (auto simp: newline_padded)
  then have split: "js_split newline (js_join [newline] ?lines) = ?lines"
    by (intro split_join) simp_all
  have "\<forall>l \<in> set ?lines. js_trim l \<noteq> []"
    by (auto simp: trim_formatLine formatLine_not_Nil)
  then have keep: "filter (\<lambda>line. js_trim line \<noteq> []) ?lines = ?lines"
    by (intro filter_True) blast
  have c0: "lineCells ?l0 = ?f r" using pf by (intro lineCells_padded) simp
  then have ne0: "lineCells ?l0 \<noteq> []" by simp
  have rest: "parseLines 2 ?ls = map ?f rows"
    using pf by (intro parseLines_formatted) simp
  have "parseLines (Suc 0) (?l1 # ?ls) = parseLines 2 ?ls"
    using separator_formatLine [of cw] by (simp add: trim_formatLine numeral_2_eq_2)
  then have "parseLines 0 ?lines = lineCells ?l0 # parseLines 2 ?ls"
    using ne0 by (simp add: trim_formatLine Let_def)
  with c0 rest have "parseLines 0 ?lines = map ?f (r # rows)" by simp
  then show ?thesis unfolding parseMarkdownTable_def lines split keep .
qed

lemma parse_generate:
  assumes "g \<noteq> []"
    and pf: "\<forall>row \<in> set g. \<forall>c \<in> set row. pipe \<notin> set c"
    and nf: "\<forall>row \<in> set g. \<forall>c \<in> set row. newline \<notin> set c"
  shows "parseMarkdownTable (generateMarkdownTable g)
           = map (\<lambda>row. if row = [] then [[]] else map js_trim row)
               (map (normalizeRow (maxColsOf g)) g)"
proof -
  let ?m = "maxColsOf g"
  let ?nd = "map (normalizeRow ?m) g"
  let ?cw = "colWidthsOf ?m ?nd"
  from assms(1) obtain r rows where nd: "?nd = r # rows" by (cases g) auto
  have gen: "generateMarkdownTable g = js_join [newline] (map formatLine (emitRows 0 ?cw ?nd))"
    using assms(1) by (simp add: generateMarkdownTable_def Let_def)
  have "\<forall>row \<in> set ?nd. \<forall>c \<in> set row. pipe \<notin> set c"
    using pf normalizeRow_free by auto
  moreover have "\<forall>row \<in> set ?nd. \<forall>c \<in> set row. newline \<notin> set c"
    using nf normalizeRow_free by auto
  ultimately show ?thesis unfolding gen unfolding nd by (intro parse_emitted)
qed



lemma parse_empty_text: "parseMarkdownTable [] = []"
  by (simp add: parseMarkdownTable_def js_trim_def)

lemma generate_empty: "generateMarkdownTable [] = []"
  by (simp add: generateMarkdownTable_def)

lemma maxColsOf_rect:
  assumes "g \<noteq> []" "\<forall>row \<in> set g. length row = n"
  shows "maxColsOf g = n"
proof -
  from assms have "set (map length g) = {n}" by (cases g) auto
  with assms(1) show ?thesis by (simp add: maxColsOf_def fold_max_0)
qed

lemma normalizeRow_id: "length row = m \<Longrightarrow> normalizeRow m row = row"
  by (simp add: normalizeRow_def)

lemma normalize_rect:
  assumes "\<forall>row \<in> set g. length row = n"
  shows "map (normalizeRow n) g = g"
  using assms by (intro map_idI) (simp add: normalizeRow_id)

text \<open>
  Claim C1, as stated, fails in two ways, on Grids that are not ragged and whose cells
  hold no pipe: a line break inside a cell is written out as it is and read back as
  the end of a line (and the separator row then is no longer at position 1), and a
  row without any cell is written as \<open>|  |\<close> and read back as one empty cell.
\<close>

theorem round_trip_counterexample:
  "pipe \<notin> set (js ''a'' @ [newline] @ js ''b'') \<and>
   parseMarkdownTable (generateMarkdownTable [[js ''a'' @ [newline] @ js ''b'']])
     = [[js ''a''], [js ''b''], [js ''---'']] \<and>
   map (map js_trim) [[js ''a'' @ [newline] @ js ''b'']] = [[js ''a'' @ [newline] @ js ''b'']] \<and>
   parseMarkdownTable (generateMarkdownTable [[js ''a'' @ [newline] @ js ''b'']])
     \<noteq> map (map js_trim) [[js ''a'' @ [newline] @ js ''b'']] \<and>
   parseMarkdownTable (generateMarkdownTable [[]]) = [[[]]] \<and>
   map (map js_trim) [[]] = [[]] \<and>
   parseMarkdownTable (generateMarkdownTable [[]]) \<noteq> map (map js_trim) [[]]"
  by code_simp



text \<open>
  Claim C1, amended: for every Grid whose rows all have the same number of cells, at
  least one, and whose cells hold neither a pipe nor a line feed, formatting the Grid
  and parsing the text gives the Grid of the trimmed cells.
\<close>

theorem round_trip:
  assumes rect: "\<forall>row \<in> set g. length row = n" and cols: "n > 0"
    and free: "\<forall>row \<in> set g. \<forall>c \<in> set row. pipe \<notin> set c \<and> newline \<notin> set c"
  shows "parseMarkdownTable (generateMarkdownTable g) = map (map js_trim) g"
proof (cases "g = []")
  case True
  then show ?thesis by (simp add: generate_empty parse_empty_text)
next
  case False
  from False rect have m: "maxColsOf g = n" by (rule maxColsOf_rect)
  from rect have nd: "map (normalizeRow n) g = g" by (rule normalize_rect)
  from free have "\<forall>row \<in> set g. \<forall>c \<in> set row. pipe \<notin> set c"
    and "\<forall>row \<in> set g. \<forall>c \<in> set row. newline \<notin> set c" by blast+
  with False have "parseMarkdownTable (generateMarkdownTable g)
      = map (\<lambda>row. if row = [] then [[]] else map js_trim row) (map (normalizeRow (maxColsOf g)) g)"
    by (rule parse_generate)
  also have "\<dots> = map (\<lambda>row. if row = [] then [[]] else map js_trim row) g"
    by (simp only: m nd)
  also have "\<dots> = map (map js_trim) g"
    using rect cols by (intro map_cong refl) auto
  finally show ?thesis .
qed

theorem round_trip_witness:
  "parseMarkdownTable (generateMarkdownTable
       [[js ''Name'', js '' Age ''], [js ''Bob'', js ''7'']])
     = [[js ''Name'', js ''Age''], [js ''Bob'', js ''7'']]"
proof -
  let ?g = "[[js ''Name'', js '' Age ''], [js ''Bob'', js ''7'']]"
  have 1: "\<forall>row \<in> set ?g. length row = 2" by simp
  have 2: "(2::nat) > 0" by simp
  have 3: "\<forall>row \<in> set ?g. \<forall>c \<in> set row. pipe \<notin> set c \<and> newline \<notin> set c" by code_simp
  have 4: "map (map js_trim) ?g = [[js ''Name'', js ''Age''], [js ''Bob'', js ''7'']]"
    by code_simp
  from round_trip [OF 1 2 3] 4 show ?thesis by (simp only:)
qed

subsection \<open>Formatting twice\<close>


text \<open>
  Claim C2, as stated, fails: the widths are those of the cells as given, the parser
  trims the cells, so a cell with a leading or trailing space is narrower the second
  time.
\<close>

theorem idempotence_counterexample:
  "generateMarkdownTable [[js '' a'']] = js ''|  a |'' @ [newline] @ js ''| -- |'' \<and>
   generateMarkdownTable (parseMarkdownTable (generateMarkdownTable [[js '' a'']]))
     = js ''| a |'' @ [newline] @ js ''| - |'' \<and>
   generateMarkdownTable (parseMarkdownTable (generateMarkdownTable [[js '' a'']]))
     \<noteq> generateMarkdownTable [[js '' a'']]"
  by code_simp

lemma generate_unfold:
  "g \<noteq> [] \<Longrightarrow>
   generateMarkdownTable g
     = js_join [newline] (map formatLine
         (emitRows 0 (colWidthsOf (maxColsOf g) (map (normalizeRow (maxColsOf g)) g))
            (map (normalizeRow (maxColsOf g)) g)))"
  by (simp add: generateMarkdownTable_def Let_def)

lemma generate_normalized:
  assumes "g \<noteq> []"
  shows "generateMarkdownTable (map (normalizeRow (maxColsOf g)) g) = generateMarkdownTable g"
proof -
  let ?m = "maxColsOf g"
  let ?nd = "map (normalizeRow ?m) g"
  from assms have ne: "?nd \<noteq> []" by simp
  have len: "\<forall>row \<in> set ?nd. length row = ?m" using normalized_rows_length by blast
  with ne have m: "maxColsOf ?nd = ?m" by (rule maxColsOf_rect)
  from len have n: "map (normalizeRow ?m) ?nd = ?nd" by (rule normalize_rect)
  show ?thesis
    unfolding generate_unfold [OF ne] generate_unfold [OF assms] m n ..
qed

lemma fold_fixed: "f x a = a \<Longrightarrow> fold f (replicate k x) a = a"
  by (induction k) simp_all

lemma formatLine_blank: "formatLine [[]] = formatLine []"
  by (simp add: formatLine_def)

lemma emit_replicate:
  assumes "paddedCells cw x = y" "separatorCells cw = y"
  shows "emitRows 0 cw (replicate (Suc k) x) = replicate (Suc (Suc k)) y"
proof -
  have "emitRows 0 cw (x # replicate k x) = y # y # map (paddedCells cw) (replicate k x)"
    by (simp only: emitRows_0 assms)
  also have "map (paddedCells cw) (replicate k x) = replicate k y"
    by (simp only: map_replicate assms)
  finally show ?thesis by simp
qed

lemma generate_no_cells:
  "generateMarkdownTable (replicate (Suc k) [])
     = js_join [newline] (replicate (Suc (Suc k)) (formatLine []))"
proof -
  let ?g = "replicate (Suc k) ([]::jsstring list)"
  have ne: "?g \<noteq> []" by simp
  have m: "maxColsOf ?g = 0" by (rule maxColsOf_rect) simp_all
  have n: "map (normalizeRow 0) ?g = ?g" by (rule normalize_rect) simp
  have cw: "colWidthsOf 0 ?g = []"
    using length_colWidthsOf [of ?g] by (simp only: m n length_0_conv)
  have p: "paddedCells [] [] = []" by (simp add: paddedCells_def)
  have s: "separatorCells [] = []" by (simp add: separatorCells_def)
  have e: "emitRows 0 [] ?g = replicate (Suc (Suc k)) []" using p s by (rule emit_replicate)
  have "generateMarkdownTable ?g = js_join [newline] (map formatLine (replicate (Suc (Suc k)) []))"
    unfolding generate_unfold [OF ne] m n cw e ..
  then show ?thesis by (simp only: map_replicate)
qed

lemma generate_blank_cells:
  "generateMarkdownTable (replicate (Suc k) [[]])
     = js_join [newline] (replicate (Suc (Suc k)) (formatLine []))"
proof -
  let ?g = "replicate (Suc k) [[]::jsstring]"
  have ne: "?g \<noteq> []" by simp
  have m: "maxColsOf ?g = 1" by (rule maxColsOf_rect) simp_all
  have n: "map (normalizeRow 1) ?g = ?g" by (rule normalize_rect) simp
  have w: "widenBy [[]] [0] = [0]" by (simp add: widenBy_def)
  have r: "replicate 1 (0::nat) = [0]" by simp
  have "fold widenBy ?g [0] = [0]" using w by (rule fold_fixed)
  then have cw: "colWidthsOf 1 ?g = [0]" unfolding colWidthsOf_def r .
  have p: "paddedCells [0] [[]] = [[]]" by (simp add: paddedCells_def padEnd_def)
  have s: "separatorCells [0] = [[]]" by (simp add: separatorCells_def js_repeat_def)
  have e: "emitRows 0 [0] ?g = replicate (Suc (Suc k)) [[]]" using p s by (rule emit_replicate)
  have "generateMarkdownTable ?g = js_join [newline] (map formatLine (replicate (Suc (Suc k)) [[]]))"
    unfolding generate_unfold [OF ne] m n cw e ..
  then show ?thesis by (simp only: map_replicate formatLine_blank)
qed



text \<open>
  Claim C2, amended: for every Grid, ragged or not, whose cells hold neither a pipe
  nor a line feed and have no leading or trailing whitespace, formatting the Grid,
  parsing the text and formatting the parsed Grid gives the text of the first
  formatting.
\<close>

theorem format_idempotent:
  assumes "\<forall>row \<in> set g. \<forall>c \<in> set row.
             pipe \<notin> set c \<and> newline \<notin> set c \<and> js_trim c = c"
  shows "generateMarkdownTable (parseMarkdownTable (generateMarkdownTable g))
           = generateMarkdownTable g"
proof (cases "g = []")
  case True
  then show ?thesis by (simp add: generate_empty parse_empty_text)
next
  case False
  let ?m = "maxColsOf g"
  let ?nd = "map (normalizeRow ?m) g"
  let ?f = "\<lambda>row::jsstring list. if row = [] then [[]] else map js_trim row"
  let ?f' = "\<lambda>row::jsstring list. if row = [] then [[]] else row"
  from assms have "\<forall>row \<in> set g. \<forall>c \<in> set row. pipe \<notin> set c"
    and "\<forall>row \<in> set g. \<forall>c \<in> set row. newline \<notin> set c" by blast+
  with False have p: "parseMarkdownTable (generateMarkdownTable g) = map ?f ?nd"
    by (rule parse_generate)
  have e: "js_trim [] = []" by (simp add: js_trim_def)
  have trimmed: "\<forall>row \<in> set ?nd. \<forall>c \<in> set row. js_trim c = c"
    using assms e by (auto simp: normalizeRow_def)
  have "map ?f ?nd = map ?f' ?nd"
  proof (rule map_cong [OF refl])
    fix row assume "row \<in> set ?nd"
    with trimmed have "map js_trim row = row" by (intro map_idI) blast
    then show "?f row = ?f' row" by simp
  qed
  with p have p': "parseMarkdownTable (generateMarkdownTable g) = map ?f' ?nd" by simp
  have len: "\<forall>row \<in> set ?nd. length row = ?m" using normalized_rows_length by blast
  show ?thesis
  proof (cases "?m = 0")
    case True
    with len have "\<forall>row \<in> set ?nd. row = []" by simp
    then have nd: "?nd = replicate (length ?nd) []" by (metis replicate_length_same)
    from False obtain k where k: "length ?nd = Suc k" by (cases g) auto
    have "map ?f' ?nd = map ?f' (replicate (Suc k) [])" using nd k by (simp only:)
    also have "\<dots> = replicate (Suc k) [[]]" by (simp only: map_replicate if_True simp_thms)
    finally have "generateMarkdownTable (map ?f' ?nd) = generateMarkdownTable (replicate (Suc k) [])"
      by (simp only: generate_blank_cells generate_no_cells)
    also have "\<dots> = generateMarkdownTable ?nd" using nd k by (simp only:)
    also have "\<dots> = generateMarkdownTable g" using False by (rule generate_normalized)
    finally show ?thesis by (simp only: p')
  next
    case False
    with len have "\<forall>row \<in> set ?nd. row \<noteq> []" by auto
    then have "map ?f' ?nd = ?nd" by (intro map_idI) auto
    with p' have "parseMarkdownTable (generateMarkdownTable g) = ?nd" by (simp only:)
    moreover have "generateMarkdownTable ?nd = generateMarkdownTable g"
      using \<open>g \<noteq> []\<close> by (rule generate_normalized)
    ultimately show ?thesis by (simp only:)
  qed
qed

theorem format_idempotent_witness:
  "generateMarkdownTable [[js ''a''], [js ''b'', js ''c d'']]
     = js ''| a |     |'' @ [newline] @ js ''| - | --- |'' @ [newline] @ js ''| b | c d |'' \<and>
   generateMarkdownTable (parseMarkdownTable (generateMarkdownTable [[js ''a''], [js ''b'', js ''c d'']]))
     = generateMarkdownTable [[js ''a''], [js ''b'', js ''c d'']]"
proof -
  let ?g = "[[js ''a''], [js ''b'', js ''c d'']]"
  have h: "\<forall>row \<in> set ?g. \<forall>c \<in> set row.
             pipe \<notin> set c \<and> newline \<notin> set c \<and> js_trim c = c" by code_simp
  have v: "generateMarkdownTable ?g
     = js ''| a |     |'' @ [newline] @ js ''| - | --- |'' @ [newline] @ js ''| b | c d |''"
    by code_simp
  from format_idempotent [OF h] v show ?thesis by blast
qed

end
